theory Spec2Isabelle
  imports Main "HOL-Library.AList"
begin

section \<open>Strings\<close>

text \<open>
  Go strings are byte sequences; they are modelled as \<open>string\<close>. \<open>strings.ToLower\<close>
  is modelled on ASCII strings, where it moves the letters \<open>A\<close> to \<open>Z\<close> (bytes 65 to 90)
  to \<open>a\<close> to \<open>z\<close> and leaves every other byte. On a string with a byte above 127 the
  Go function lowers Unicode letters and rewrites invalid UTF-8, which \<open>ToLower\<close> below does
  not follow: there the model is not the program (see \<open>asciiString\<close> below).
\<close>

definition toLowerByte :: "char \<Rightarrow> char" where
  "toLowerByte c =
     (let n = (of_char c :: nat) in if 65 \<le> n \<and> n \<le> 90 then char_of (n + 32) else c)"

definition ToLower :: "string \<Rightarrow> string" where
  "ToLower s = map toLowerByte s"

text \<open>\<open>strings.HasSuffix\<close> and \<open>strings.TrimSuffix\<close>: one occurrence of the suffix is cut.\<close>

definition HasSuffix :: "string \<Rightarrow> string \<Rightarrow> bool" where
  "HasSuffix s suffix \<longleftrightarrow>
     length suffix \<le> length s \<and> drop (length s - length suffix) s = suffix"

definition TrimSuffix :: "string \<Rightarrow> string \<Rightarrow> string" where
  "TrimSuffix s suffix =
     (if HasSuffix s suffix then take (length s - length suffix) s else s)"

text \<open>The verb \<open>%d\<close> of \<open>fmt.Sprintf\<close> on a non-negative integer (a slice index, a map size).\<close>

definition digitByte :: "nat \<Rightarrow> char" where
  "digitByte d = char_of (48 + d)"

fun fmtD :: "nat \<Rightarrow> string" where
  "fmtD n = (if n < 10 then [digitByte n] else fmtD (n div 10) @ [digitByte (n mod 10)])"

declare fmtD.simps [simp del]

section \<open>Canonical keys\<close>

text \<open>The value of a \<open>GroupVersionKind()\<close> call (\<open>schema.GroupVersionKind\<close>).\<close>

record GroupVersionKind =
  Group :: string
  Version :: string
  Kind :: string

definition key :: "string \<Rightarrow> string \<Rightarrow> string \<Rightarrow> string \<Rightarrow> string" where
  "key grp version kind name = ToLower (grp @ ''/'' @ version @ ''/'' @ kind @ ''/'' @ name)"

definition gvkKey :: "GroupVersionKind \<Rightarrow> string \<Rightarrow> string" where
  "gvkKey gvk name = ToLower (Group gvk @ ''/'' @ Version gvk @ ''/'' @ Kind gvk @ ''/'' @ name)"

definition uriKey :: "string \<Rightarrow> string" where
  "uriKey uri = ToLower (''uri/'' @ uri)"

definition refKey :: "string \<Rightarrow> string \<Rightarrow> string \<Rightarrow> string" where
  "refKey apiVersion kind name = ToLower (apiVersion @ ''/'' @ kind @ ''/'' @ name)"

definition eventingKey :: "string \<Rightarrow> string \<Rightarrow> string" where
  "eventingKey kind name = key ''eventing.knative.dev'' ''v1alpha1'' kind name"

definition messagingKey :: "string \<Rightarrow> string \<Rightarrow> string" where
  "messagingKey kind name = key ''messaging.knative.dev'' ''v1alpha1'' kind name"

definition servingKey :: "string \<Rightarrow> string \<Rightarrow> string" where
  "servingKey kind name = key ''serving.knative.dev'' ''v1beta1'' kind name"

definition channelKey :: "string \<Rightarrow> string" where
  "channelKey name = eventingKey ''channel'' name"

definition subscriptionKey :: "string \<Rightarrow> string" where
  "subscriptionKey name = eventingKey ''subscription'' name"

definition brokerKey :: "string \<Rightarrow> string" where
  "brokerKey name = eventingKey ''broker'' name"

definition triggerKey :: "string \<Rightarrow> string" where
  "triggerKey name = eventingKey ''trigger'' name"

definition sequenceKey :: "string \<Rightarrow> string" where
  "sequenceKey name = messagingKey ''sequence'' name"

definition sequenceStepKey :: "string \<Rightarrow> nat \<Rightarrow> string" where
  "sequenceStepKey name step = messagingKey ''sequencestep'' (name @ ''-'' @ fmtD step)"

section \<open>Input resources\<close>

text \<open>
  The typed resources handed to the builder, with the fields the builder reads. A Go pointer
  field is an \<open>option\<close> (\<open>None\<close> is \<open>nil\<close>). Three values are computed by libraries outside
  this package and are taken as data: the result of \<open>GroupVersionKind()\<close> on a reference or
  a source, and the text \<open>Status.Address.GetURL().String()\<close> of an addressable resource
  (empty when the resource has no address).
\<close>

record ObjectReference =
  or_APIVersion :: string
  or_Kind :: string
  or_Name :: string
  or_GroupVersionKind :: GroupVersionKind

record SubscriberSpec =
  sub_Ref :: "ObjectReference option"
  sub_URI :: "string option"

record ReplyStrategy =
  rep_Channel :: "ObjectReference option"

record Channel =
  ch_Name :: string
  ch_Kind :: string
  ch_APIVersion :: string
  ch_URL :: string

record Subscription =
  sn_Name :: string
  sn_Channel :: ObjectReference
  sn_Subscriber :: "SubscriberSpec option"
  sn_Reply :: "ReplyStrategy option"

record Broker =
  br_Name :: string
  br_URL :: string

record SourceType =
  src_Name :: string
  src_Kind :: string
  src_APIVersion :: string
  src_GroupVersionKind :: GroupVersionKind
  src_SinkURI :: "string option"

record SourceAndType =
  sat_Source :: string
  sat_Type :: string

record TriggerFilter =
  tf_SourceAndType :: "SourceAndType option"

record Trigger =
  tr_Name :: string
  tr_Broker :: string
  tr_Filter :: "TriggerFilter option"
  tr_Subscriber :: "SubscriberSpec option"

record EnvVar =
  env_Name :: string
  env_Value :: string

record Container =
  c_Env :: "EnvVar list"

record Service =
  svc_Name :: string
  svc_Kind :: string
  svc_APIVersion :: string
  svc_Containers :: "Container list"

record Sequence =
  seq_Name :: string
  seq_URL :: string
  seq_Steps :: "SubscriberSpec list"
  seq_Reply :: "ObjectReference option"

section \<open>The graph document and the builder state\<close>

text \<open>
  \<open>*dot.Node\<close> and \<open>*dot.SubGraph\<close> are pointers to mutable objects that the document, the
  clusters and the indexes share. Every object lives in a store (\<open>node_heap\<close>,
  \<open>sg_heap\<close>) and a pointer is its position there; \<open>dot.NewNode\<close> and \<open>dot.NewSubgraph\<close>
  allocate at the end of the store. A possibly nil node pointer is a \<open>nat option\<close>.
  The drawing library is a recorder here: it keeps the nodes, edges, clusters and
  attributes it is given, in call order. The three Go maps are association lists with
  distinct keys (\<open>map_of\<close> reads, \<open>AList.update\<close> writes, \<open>length\<close> is \<open>len\<close>).
\<close>

type_synonym attrs = "(string \<times> string) list"

record Node =
  n_name :: string
  n_attrs :: attrs

record Edge =
  e_src :: "nat option"
  e_dst :: "nat option"
  e_attrs :: attrs

record SubGraph =
  sg_name :: string
  sg_attrs :: attrs
  sg_nodes :: "nat list"

record Graph =
  node_heap :: "Node list"
  sg_heap :: "SubGraph list"
  doc_name :: string
  doc_attrs :: attrs
  doc_nodes :: "nat list"
  doc_edges :: "Edge list"
  doc_subgraphs :: "nat list"
  nodes :: "(string \<times> nat) list"
  subgraphs :: "(string \<times> nat) list"
  dnsToKey :: "(string \<times> string) list"
  edgeCount :: nat
  rainbowEdge :: bool

datatype panic = IndexOutOfRange | DivideByZero

definition New :: "string \<Rightarrow> Graph" where
  "New ns =
     \<lparr>node_heap = [], sg_heap = [], doc_name = ''G'',
      doc_attrs = [(''shape'', ''box''), (''label'', ''Triggers in '' @ ns), (''rankdir'', ''LR'')],
      doc_nodes = [], doc_edges = [], doc_subgraphs = [],
      nodes = [], subgraphs = [], dnsToKey = [],
      edgeCount = 0, rainbowEdge = True\<rparr>"

subsection \<open>The calls into the drawing library\<close>

definition NewNode :: "string \<Rightarrow> Graph \<Rightarrow> nat \<times> Graph" where
  "NewNode nm g =
     (length (node_heap g), g\<lparr>node_heap := node_heap g @ [\<lparr>n_name = nm, n_attrs = []\<rparr>]\<rparr>)"

definition Node_Set :: "nat \<Rightarrow> string \<Rightarrow> string \<Rightarrow> Graph \<Rightarrow> Graph" where
  "Node_Set n k v g =
     g\<lparr>node_heap := (node_heap g)
          [n := (node_heap g ! n)\<lparr>n_attrs := AList.update k v (n_attrs (node_heap g ! n))\<rparr>]\<rparr>"

definition NewSubgraph :: "string \<Rightarrow> Graph \<Rightarrow> nat \<times> Graph" where
  "NewSubgraph nm g =
     (length (sg_heap g),
      g\<lparr>sg_heap := sg_heap g @ [\<lparr>sg_name = nm, sg_attrs = [], sg_nodes = []\<rparr>]\<rparr>)"

definition SubGraph_Set :: "nat \<Rightarrow> string \<Rightarrow> string \<Rightarrow> Graph \<Rightarrow> Graph" where
  "SubGraph_Set s k v g =
     g\<lparr>sg_heap := (sg_heap g)
          [s := (sg_heap g ! s)\<lparr>sg_attrs := AList.update k v (sg_attrs (sg_heap g ! s))\<rparr>]\<rparr>"

definition SubGraph_AddNode :: "nat \<Rightarrow> nat \<Rightarrow> Graph \<Rightarrow> Graph" where
  "SubGraph_AddNode s n g =
     g\<lparr>sg_heap := (sg_heap g)[s := (sg_heap g ! s)\<lparr>sg_nodes := sg_nodes (sg_heap g ! s) @ [n]\<rparr>]\<rparr>"

definition AddNode :: "nat \<Rightarrow> Graph \<Rightarrow> Graph" where
  "AddNode n g = g\<lparr>doc_nodes := doc_nodes g @ [n]\<rparr>"

definition AddSubgraph :: "nat \<Rightarrow> Graph \<Rightarrow> Graph" where
  "AddSubgraph s g = g\<lparr>doc_subgraphs := doc_subgraphs g @ [s]\<rparr>"

definition NewEdge :: "nat option \<Rightarrow> nat option \<Rightarrow> Edge" where
  "NewEdge s d = \<lparr>e_src = s, e_dst = d, e_attrs = []\<rparr>"

definition Edge_Set :: "string \<Rightarrow> string \<Rightarrow> Edge \<Rightarrow> Edge" where
  "Edge_Set k v e = e\<lparr>e_attrs := AList.update k v (e_attrs e)\<rparr>"

definition AddEdge :: "Edge \<Rightarrow> Graph \<Rightarrow> Graph" where
  "AddEdge e g = g\<lparr>doc_edges := doc_edges g @ [e]\<rparr>"

section \<open>The builder\<close>

text \<open>
  \<open>colors\<close>, the palette that \<open>newEdge\<close> cycles through, is a package variable declared
  outside this file; it is a parameter of every function that reaches \<open>newEdge\<close>. With an
  empty palette the remainder \<open>g.edgeCount % len(colors)\<close> panics.
\<close>

definition newEdge :: "string list \<Rightarrow> nat option \<Rightarrow> nat option \<Rightarrow> Graph \<Rightarrow> panic + (Edge \<times> Graph)" where
  "newEdge colors s d g =
     (let e = NewEdge s d in
      if rainbowEdge g then
        (if length colors = 0 then Inl DivideByZero
         else Inr (Edge_Set ''color'' (colors ! (edgeCount g mod length colors)) e,
                   g\<lparr>edgeCount := edgeCount g + 1\<rparr>))
      else Inr (e, g))"

definition setNodeShapeForKind :: "nat \<Rightarrow> string \<Rightarrow> string \<Rightarrow> Graph \<Rightarrow> Graph" where
  "setNodeShapeForKind node kind apiVersion g =
     (if apiVersion = ''serving.knative.dev/v1beta1'' then
        (if kind = ''Service'' then Node_Set node ''shape'' ''septagon'' g else g)
      else g)"

definition sinkDNS :: "SourceType \<Rightarrow> string" where
  "sinkDNS source =
     (case src_SinkURI source of Some u \<Rightarrow> TrimSuffix u ''/'' | None \<Rightarrow> [])"

text \<open>
  \<open>getOrCreateSink\<close>: on a miss in the address index \<open>key\<close> keeps the zero value, the
  empty string; the placeholder is added to the document, and the function returns
  \<open>g.nodes[key]\<close>.
\<close>

definition getOrCreateSink :: "string \<Rightarrow> Graph \<Rightarrow> nat option \<times> Graph" where
  "getOrCreateSink uri0 g =
     (let uri = TrimSuffix uri0 ''/'' in
      case map_of (dnsToKey g) uri of
        None \<Rightarrow>
          (let (node, g1) = NewNode (''UnknownSink '' @ uri) g;
               g2 = AddNode node g1
           in (map_of (nodes g2) [], g2))
      | Some k \<Rightarrow> (map_of (nodes g) k, g))"

text \<open>The key and the label that \<open>getOrCreateSubscriber\<close> computes before its lookup.\<close>

definition subscriberKeyLabel :: "SubscriberSpec option \<Rightarrow> string \<times> string" where
  "subscriberKeyLabel subscriber =
     (case subscriber of
        None \<Rightarrow> (''?'', ''?'')
      | Some s \<Rightarrow>
          (case sub_URI s of
             Some u \<Rightarrow> (uriKey u, u)
           | None \<Rightarrow>
               (case sub_Ref s of
                  Some r \<Rightarrow>
                    (refKey (or_APIVersion r) (or_Kind r) (or_Name r),
                     or_Name r @ ''\<newline>Kind: '' @ or_Kind r @ ''\<newline>'' @ or_APIVersion r)
                | None \<Rightarrow> (''?'', ''?''))))"

definition getOrCreateSubscriber :: "SubscriberSpec option \<Rightarrow> Graph \<Rightarrow> nat option \<times> Graph" where
  "getOrCreateSubscriber subscriber g =
     (let (k, label) = subscriberKeyLabel subscriber in
      case map_of (nodes g) k of
        Some sub \<Rightarrow> (Some sub, g)
      | None \<Rightarrow>
          (let (sub, g1) = NewNode label g;
               g2 = (case subscriber of
                       None \<Rightarrow> g1
                     | Some s \<Rightarrow>
                         (case sub_Ref s of
                            None \<Rightarrow> g1
                          | Some r \<Rightarrow> setNodeShapeForKind sub (or_Kind r) (or_APIVersion r) g1));
               g3 = g2\<lparr>nodes := AList.update k sub (nodes g2)\<rparr>;
               g4 = AddNode sub g3
           in (Some sub, g4)))"

text \<open>
  \<open>getOrCreateReply\<close>: in the branch where the channel key has no node, the new node is
  assigned to the variable of the \<open>if\<close> statement only, and the function goes on to
  \<open>return nil\<close>.
\<close>

definition getOrCreateReply :: "ReplyStrategy option \<Rightarrow> Graph \<Rightarrow> nat option \<times> Graph" where
  "getOrCreateReply rep g =
     (case rep of
        None \<Rightarrow> (None, g)
      | Some r \<Rightarrow>
          (case rep_Channel r of
             None \<Rightarrow> (None, g)
           | Some c \<Rightarrow>
               (let ck = channelKey (or_Name c) in
                case map_of (nodes g) ck of
                  None \<Rightarrow> (let (cn, g1) = NewNode (''Unknown Channel '' @ or_Name c) g in (None, g1))
                | Some cn \<Rightarrow> (Some cn, g))))"

definition AddChannel :: "Channel \<Rightarrow> Graph \<Rightarrow> Graph" where
  "AddChannel channel g =
     (let ck = channelKey (ch_Name channel);
          dns = TrimSuffix (ch_URL channel) ''/'';
          (cn, g1) = NewNode (''Channel '' @ ch_Name channel) g;
          g2 = setNodeShapeForKind cn (ch_Kind channel) (ch_APIVersion channel) g1;
          g3 = Node_Set cn ''shape'' ''oval'' g2;
          g4 = Node_Set cn ''label'' ''Ingress'' g3;
          g5 = g4\<lparr>nodes := AList.update ck cn (nodes g4)\<rparr>;
          g6 = g5\<lparr>dnsToKey := AList.update dns ck (dnsToKey g5)\<rparr>;
          (cg, g7) = NewSubgraph (''cluster_'' @ fmtD (length (subgraphs g6))) g6;
          g8 = SubGraph_Set cg ''label'' (''Channel '' @ ch_Name channel @ ''\<newline>'' @ dns) g7;
          g9 = g8\<lparr>subgraphs := AList.update ck cg (subgraphs g8)\<rparr>;
          g10 = SubGraph_AddNode cg cn g9
      in AddSubgraph cg g10)"

definition AddSubscription :: "string list \<Rightarrow> Subscription \<Rightarrow> Graph \<Rightarrow> panic + Graph" where
  "AddSubscription colors subscription g =
     (let sk = subscriptionKey (sn_Name subscription);
          (sn, g1) = NewNode (''Subscription '' @ sn_Name subscription) g;
          ck = gvkKey (or_GroupVersionKind (sn_Channel subscription))
                      (or_Name (sn_Channel subscription));
          g2 = (case map_of (subgraphs g1) ck of
                  None \<Rightarrow> AddNode sn g1
                | Some cg \<Rightarrow> SubGraph_AddNode cg sn g1);
          g3 = g2\<lparr>nodes := AList.update sk sn (nodes g2)\<rparr>;
          (sub, g4) = getOrCreateSubscriber (sn_Subscriber subscription) g3;
          g5 = (case sub of
                  None \<Rightarrow> g4
                | Some s \<Rightarrow> AddEdge (Edge_Set ''dir'' ''both'' (NewEdge (Some sn) (Some s))) g4);
          (rep, g6) = getOrCreateReply (sn_Reply subscription) g5
      in case rep of
           None \<Rightarrow> Inr g6
         | Some r \<Rightarrow>
             (case newEdge colors (Some sn) (Some r) g6 of
                Inl p \<Rightarrow> Inl p
              | Inr (e, g7) \<Rightarrow> Inr (AddEdge (Edge_Set ''dir'' ''forward'' e) g7)))"

definition AddBroker :: "Broker \<Rightarrow> Graph \<Rightarrow> Graph" where
  "AddBroker broker g =
     (let k = brokerKey (br_Name broker);
          dns = TrimSuffix (br_URL broker) ''/'';
          (bn, g1) = NewNode (''Broker '' @ dns) g;
          g2 = Node_Set bn ''shape'' ''oval'' g1;
          g3 = Node_Set bn ''label'' ''Ingress'' g2;
          g4 = g3\<lparr>nodes := AList.update k bn (nodes g3)\<rparr>;
          g5 = g4\<lparr>dnsToKey := AList.update dns k (dnsToKey g4)\<rparr>;
          (bg, g6) = NewSubgraph (''cluster_'' @ fmtD (length (subgraphs g5))) g5;
          g7 = SubGraph_Set bg ''label'' (''Broker '' @ br_Name broker @ ''\<newline>'' @ dns) g6;
          g8 = g7\<lparr>subgraphs := AList.update k bg (subgraphs g7)\<rparr>;
          g9 = SubGraph_AddNode bg bn g8
      in AddSubgraph bg g9)"

text \<open>
  \<open>AddSource\<close>: \<open>bk\<close> keeps the zero value, the empty string, when the address index
  misses, and the cluster lookup after the edge is built uses it as it is.
\<close>

definition AddSource :: "SourceType \<Rightarrow> Graph \<Rightarrow> Graph" where
  "AddSource source g =
     (let k = gvkKey (src_GroupVersionKind source) (src_Name source);
          (sn, g1) = NewNode (''Source '' @ src_Name source @ ''\<newline>Kind: '' @ src_Kind source
                               @ ''\<newline>'' @ src_APIVersion source) g;
          g2 = Node_Set sn ''shape'' ''box'' g1;
          g3 = AddNode sn g2;
          g4 = g3\<lparr>nodes := AList.update k sn (nodes g3)\<rparr>;
          sink = sinkDNS source
      in if sink \<noteq> [] then
           (let (bn, bk, g5) =
                  (case map_of (dnsToKey g4) sink of
                     None \<Rightarrow>
                       (let (b, ga) = NewNode (''UnknownSink '' @ sink) g4
                        in (b, [], AddNode b ga))
                   | Some bk' \<Rightarrow>
                       (case map_of (nodes g4) bk' of
                          None \<Rightarrow>
                            (let (b, ga) = NewNode (''UnknownSink '' @ sink) g4
                             in (b, bk', AddNode b ga))
                        | Some b \<Rightarrow> (b, bk', g4)));
                e = NewEdge (Some sn) (Some bn);
                e' = (case map_of (subgraphs g5) bk of
                        None \<Rightarrow> e
                      | Some sg \<Rightarrow> Edge_Set ''lhead'' (sg_name (sg_heap g5 ! sg)) e)
            in AddEdge e' g5)
         else g4)"

definition AddTrigger :: "Trigger \<Rightarrow> Graph \<Rightarrow> Graph" where
  "AddTrigger trigger g =
     (let broker = tr_Broker trigger;
          bk = brokerKey broker;
          (bn, g1) = (case map_of (nodes g) bk of
                        Some b \<Rightarrow> (b, g)
                      | None \<Rightarrow>
                          (let (b, ga) = NewNode (''UnknownBroker '' @ broker) g;
                               gb = AddNode b ga
                           in (b, gb\<lparr>nodes := AList.update bk b (nodes gb)\<rparr>)));
          (tn, g2) = NewNode (''Trigger '' @ tr_Name trigger) g1;
          g3 = Node_Set tn ''shape'' ''box'' g2;
          g4 = (case map_of (subgraphs g3) bk of
                  Some sg \<Rightarrow> SubGraph_AddNode sg tn g3
                | None \<Rightarrow> AddNode tn g3);
          g5 = g4\<lparr>nodes := AList.update (triggerKey (tr_Name trigger)) tn (nodes g4)\<rparr>;
          g6 = (case tr_Filter trigger of
                  None \<Rightarrow> g5
                | Some f \<Rightarrow>
                    (case tf_SourceAndType f of
                       None \<Rightarrow> g5
                     | Some st \<Rightarrow>
                         (let label = ''Source:'' @ sat_Source st @ ''\<newline>Type:'' @ sat_Type st
                          in Node_Set tn ''label''
                               (n_name (node_heap g5 ! tn) @ ''\<newline>'' @ label) g5)));
          (sub, g7) = getOrCreateSubscriber (tr_Subscriber trigger) g6
      in case sub of
           None \<Rightarrow> g7
         | Some s \<Rightarrow> AddEdge (Edge_Set ''dir'' ''both'' (NewEdge (Some tn) (Some s))) g7)"


text \<open>
  \<open>AddKnService\<close>: the loop over the environment of \<open>Containers[0]\<close>. Indexing an empty
  container list panics, after the service node has been looked up or created.
\<close>

fun envLoop :: "nat \<Rightarrow> EnvVar list \<Rightarrow> Graph \<Rightarrow> Graph" where
  "envLoop svc [] g = g"
| "envLoop svc (env # rest) g =
     (if env_Name env = ''SINK'' \<or> env_Name env = ''TARGET'' then
        (let (target, g1) = getOrCreateSink (env_Value env) g;
             e = NewEdge (Some svc) target
         in envLoop svc rest (AddEdge e g1))
      else envLoop svc rest g)"

definition AddKnService :: "Service \<Rightarrow> Graph \<Rightarrow> panic + Graph" where
  "AddKnService service g =
     (let k = servingKey (svc_Kind service) (svc_Name service);
          (svc, g1) =
            (case map_of (nodes g) k of
               Some s \<Rightarrow> (s, g)
             | None \<Rightarrow>
                 (let label = svc_Name service @ ''\<newline>Kind: '' @ svc_Kind service
                              @ ''\<newline>'' @ svc_APIVersion service;
                      (s, ga) = NewNode label g;
                      gb = setNodeShapeForKind s (svc_Kind service) (svc_APIVersion service) ga;
                      gc = Node_Set s ''shape'' ''septagon'' gb;
                      gd = gc\<lparr>nodes := AList.update k s (nodes gc)\<rparr>
                  in (s, AddNode s gd)))
      in case svc_Containers service of
           [] \<Rightarrow> Inl IndexOutOfRange
         | c # _ \<Rightarrow> Inr (envLoop svc (c_Env c) g1))"

text \<open>
  \<open>AddSequence\<close>: \<open>stepBody\<close> is one iteration of the loop over the steps, for the step
  of index \<open>num\<close>; it returns the new step node, which is the next \<open>previousNode\<close>. The
  subscriber handed to \<open>getOrCreateSubscriber\<close> is the address of the loop variable, never
  nil. \<open>stepLoop\<close> runs the iterations in the order of the slice and returns the last
  \<open>previousNode\<close>.
\<close>

definition stepBody :: "string \<Rightarrow> nat \<Rightarrow> nat \<Rightarrow> nat \<Rightarrow> SubscriberSpec \<Rightarrow> Graph \<Rightarrow> nat \<times> Graph" where
  "stepBody name sg num previousNode step g =
     (let stepKey = sequenceStepKey name num;
          (stepn, g1) = NewNode stepKey g;
          g2 = Node_Set stepn ''label'' (''Step '' @ fmtD num) g1;
          g3 = Node_Set stepn ''shape'' ''box'' g2;
          g4 = SubGraph_AddNode sg stepn g3;
          g5 = g4\<lparr>nodes := AList.update stepKey stepn (nodes g4)\<rparr>;
          (sub, g6) = getOrCreateSubscriber (Some step) g5;
          g7 = (case sub of
                  None \<Rightarrow> g6
                | Some s \<Rightarrow> AddEdge (Edge_Set ''dir'' ''both'' (NewEdge (Some stepn) (Some s))) g6);
          g8 = AddEdge (NewEdge (Some previousNode) (Some stepn)) g7
      in (stepn, g8))"

fun stepLoop :: "string \<Rightarrow> nat \<Rightarrow> nat \<Rightarrow> nat \<Rightarrow> SubscriberSpec list \<Rightarrow> Graph \<Rightarrow> nat \<times> Graph" where
  "stepLoop name sg num previousNode [] g = (previousNode, g)"
| "stepLoop name sg num previousNode (step # rest) g =
     (let (stepn, g8) = stepBody name sg num previousNode step g
      in stepLoop name sg (num + 1) stepn rest g8)"

definition AddSequence :: "Sequence \<Rightarrow> Graph \<Rightarrow> Graph" where
  "AddSequence seq g =
     (let k = sequenceKey (seq_Name seq);
          dns = TrimSuffix (seq_URL seq) ''/'';
          (sg, g1) = NewSubgraph (''cluster_'' @ fmtD (length (subgraphs g))) g;
          g2 = SubGraph_Set sg ''label'' (''Sequence '' @ seq_Name seq @ ''\<newline>'' @ dns) g1;
          g3 = g2\<lparr>dnsToKey := AList.update dns k (dnsToKey g2)\<rparr>;
          (sn, g4) = NewNode (''Sequence '' @ dns) g3;
          g5 = Node_Set sn ''label'' ''Start'' g4;
          g6 = g5\<lparr>nodes := AList.update k sn (nodes g5)\<rparr>;
          g7 = SubGraph_AddNode sg sn g6;
          (previousNode, g8) = stepLoop (seq_Name seq) sg 0 sn (seq_Steps seq) g7;
          g9 = (case seq_Reply seq of
                  None \<Rightarrow> g8
                | Some reply \<Rightarrow>
                    (let (replyn, ga) = NewNode (''Reply '' @ dns) g8;
                         gb = Node_Set replyn ''label'' ''Reply'' ga;
                         gc = SubGraph_AddNode sg replyn gb;
                         gd = AddEdge (NewEdge (Some previousNode) (Some replyn)) gc;
                         rk = gvkKey (or_GroupVersionKind reply) (or_Name reply)
                     in case map_of (nodes gd) rk of
                          Some rn \<Rightarrow> AddEdge (NewEdge (Some replyn) (Some rn)) gd
                        | None \<Rightarrow> gd));
          g10 = g9\<lparr>subgraphs := AList.update k sg (subgraphs g9)\<rparr>
      in AddSubgraph sg g10)"

section \<open>A build: a sequence of add operations\<close>

text \<open>
  A caller drives one builder through a list of add operations. A panic ends the build.
\<close>

datatype call =
    CallAddChannel Channel
  | CallAddSubscription Subscription
  | CallAddBroker Broker
  | CallAddSource SourceType
  | CallAddTrigger Trigger
  | CallAddKnService Service
  | CallAddSequence Sequence

fun perform :: "string list \<Rightarrow> call \<Rightarrow> Graph \<Rightarrow> panic + Graph" where
  "perform colors (CallAddChannel c) g = Inr (AddChannel c g)"
| "perform colors (CallAddSubscription s) g = AddSubscription colors s g"
| "perform colors (CallAddBroker b) g = Inr (AddBroker b g)"
| "perform colors (CallAddSource s) g = Inr (AddSource s g)"
| "perform colors (CallAddTrigger t) g = Inr (AddTrigger t g)"
| "perform colors (CallAddKnService s) g = AddKnService s g"
| "perform colors (CallAddSequence s) g = Inr (AddSequence s g)"

fun build :: "string list \<Rightarrow> call list \<Rightarrow> Graph \<Rightarrow> panic + Graph" where
  "build colors [] g = Inr g"
| "build colors (c # cs) g =
     (case perform colors c g of Inl p \<Rightarrow> Inl p | Inr g' \<Rightarrow> build colors cs g')"


text \<open>
  The keys under which an add operation stores a node of its own without looking first:
  the key of the resource itself and, for a sequence, the keys of its steps. (The nodes of
  subscribers, services and missing brokers are stored only after a lookup has missed.)
\<close>

fun ownKeys :: "call \<Rightarrow> string list" where
  "ownKeys (CallAddChannel c) = [channelKey (ch_Name c)]"
| "ownKeys (CallAddSubscription s) = [subscriptionKey (sn_Name s)]"
| "ownKeys (CallAddBroker b) = [brokerKey (br_Name b)]"
| "ownKeys (CallAddSource s) = [gvkKey (src_GroupVersionKind s) (src_Name s)]"
| "ownKeys (CallAddTrigger t) = [triggerKey (tr_Name t)]"
| "ownKeys (CallAddKnService s) = []"
| "ownKeys (CallAddSequence s) =
     sequenceKey (seq_Name s) # map (sequenceStepKey (seq_Name s)) [0..<length (seq_Steps s)]"

text \<open>Every key stored as a value of the address index has a node in the node index.\<close>

definition addressesResolve :: "Graph \<Rightarrow> bool" where
  "addressesResolve g = list_all (\<lambda>(d, k). map_of (nodes g) k \<noteq> None) (dnsToKey g)"

text \<open>A plain edge carries no attribute (no \<open>dir\<close>, no \<open>color\<close>, no \<open>lhead\<close>).\<close>

definition plain :: "Edge \<Rightarrow> bool" where
  "plain e \<longleftrightarrow> e_attrs e = []"

text \<open>The names of all node objects constructed so far, in the order of construction.\<close>

definition created :: "Graph \<Rightarrow> string list" where
  "created g = map n_name (node_heap g)"

text \<open>
  \<open>keeps K g g'\<close>: every key that has a node in \<open>g\<close> has one in \<open>g'\<close>, and the same one
  unless the key is in \<open>K\<close>.
\<close>

definition keeps :: "string set \<Rightarrow> Graph \<Rightarrow> Graph \<Rightarrow> bool" where
  "keeps K g g' \<longleftrightarrow>
     (\<forall>k n. map_of (nodes g) k = Some n \<longrightarrow>
        map_of (nodes g') k \<noteq> None \<and> (k \<notin> K \<longrightarrow> map_of (nodes g') k = Some n))"

definition keepsR :: "string set \<Rightarrow> Graph \<Rightarrow> panic + Graph \<Rightarrow> bool" where
  "keepsR K g r \<longleftrightarrow> (case r of Inl p \<Rightarrow> True | Inr g' \<Rightarrow> keeps K g g')"

text \<open>
  The chain that the specification describes for a sequence: an edge from the start node
  to the first step, then from each step to the next, in the order of the steps.
\<close>

fun chainEdges :: "nat \<Rightarrow> nat list \<Rightarrow> Edge list" where
  "chainEdges start [] = []"
| "chainEdges start (x # xs) = NewEdge (Some start) (Some x) # chainEdges x xs"

text \<open>
  The addresses that an add operation stores in the address index, and the keys under
  which it stores a cluster in the cluster index.
\<close>

fun ownAddresses :: "call \<Rightarrow> string list" where
  "ownAddresses (CallAddChannel c) = [TrimSuffix (ch_URL c) ''/'']"
| "ownAddresses (CallAddBroker b) = [TrimSuffix (br_URL b) ''/'']"
| "ownAddresses (CallAddSequence s) = [TrimSuffix (seq_URL s) ''/'']"
| "ownAddresses c = []"


text \<open>
  \<open>ToLower\<close> above is \<open>strings.ToLower\<close> on ASCII strings only. The predicates below say
  that every string of a resource that enters a key is ASCII; a theorem that depends on
  the keys of two resources being different assumes them.
\<close>

definition asciiString :: "string \<Rightarrow> bool" where
  "asciiString s = list_all (\<lambda>c. (of_char c :: nat) < 128) s"

definition asciiRef :: "ObjectReference \<Rightarrow> bool" where
  "asciiRef r \<longleftrightarrow>
     asciiString (or_APIVersion r) \<and> asciiString (or_Kind r) \<and> asciiString (or_Name r) \<and>
     asciiString (Group (or_GroupVersionKind r)) \<and> asciiString (Version (or_GroupVersionKind r)) \<and>
     asciiString (Kind (or_GroupVersionKind r))"

definition asciiSubscriber :: "SubscriberSpec option \<Rightarrow> bool" where
  "asciiSubscriber subscriber =
     (case subscriber of
        None \<Rightarrow> True
      | Some s \<Rightarrow>
          (case sub_URI s of None \<Rightarrow> True | Some u \<Rightarrow> asciiString u) \<and>
          (case sub_Ref s of None \<Rightarrow> True | Some r \<Rightarrow> asciiRef r))"

definition asciiSubscription :: "Subscription \<Rightarrow> bool" where
  "asciiSubscription s \<longleftrightarrow>
     asciiString (sn_Name s) \<and> asciiRef (sn_Channel s) \<and> asciiSubscriber (sn_Subscriber s) \<and>
     (case sn_Reply s of
        None \<Rightarrow> True
      | Some r \<Rightarrow> (case rep_Channel r of None \<Rightarrow> True | Some c \<Rightarrow> asciiRef c))"

definition asciiSource :: "SourceType \<Rightarrow> bool" where
  "asciiSource s \<longleftrightarrow>
     asciiString (src_Name s) \<and> asciiString (Group (src_GroupVersionKind s)) \<and>
     asciiString (Version (src_GroupVersionKind s)) \<and> asciiString (Kind (src_GroupVersionKind s))"

definition asciiTrigger :: "Trigger \<Rightarrow> bool" where
  "asciiTrigger t \<longleftrightarrow>
     asciiString (tr_Name t) \<and> asciiString (tr_Broker t) \<and> asciiSubscriber (tr_Subscriber t)"

definition asciiSequence :: "Sequence \<Rightarrow> bool" where
  "asciiSequence s \<longleftrightarrow>
     asciiString (seq_Name s) \<and> list_all (\<lambda>step. asciiSubscriber (Some step)) (seq_Steps s) \<and>
     (case seq_Reply s of None \<Rightarrow> True | Some r \<Rightarrow> asciiRef r)"

fun asciiCall :: "call \<Rightarrow> bool" where
  "asciiCall (CallAddChannel c) = asciiString (ch_Name c)"
| "asciiCall (CallAddSubscription s) = asciiSubscription s"
| "asciiCall (CallAddBroker b) = asciiString (br_Name b)"
| "asciiCall (CallAddSource s) = asciiSource s"
| "asciiCall (CallAddTrigger t) = asciiTrigger t"
| "asciiCall (CallAddKnService s) = (asciiString (svc_Kind s) \<and> asciiString (svc_Name s))"
| "asciiCall (CallAddSequence s) = asciiSequence s"

text \<open>
  The object stores only grow: an operation never removes a node object or a cluster
  object, and the nodes that cluster \<open>i\<close> held before are the first nodes it holds
  afterwards.
\<close>

definition grows :: "nat \<Rightarrow> Graph \<Rightarrow> Graph \<Rightarrow> bool" where
  "grows i g h \<longleftrightarrow>
     length (node_heap g) \<le> length (node_heap h) \<and>
     length (sg_heap g) \<le> length (sg_heap h) \<and>
     (i < length (sg_heap g) \<longrightarrow>
        take (length (sg_nodes (sg_heap g ! i))) (sg_nodes (sg_heap h ! i)) = sg_nodes (sg_heap g ! i))"

definition growsR :: "nat \<Rightarrow> Graph \<Rightarrow> panic + Graph \<Rightarrow> bool" where
  "growsR i g r \<longleftrightarrow> (case r of Inl p \<Rightarrow> True | Inr g' \<Rightarrow> grows i g g')"

text \<open>
  The addresses that the loop of \<open>AddKnService\<close> resolves, in the order of the environment:
  the values of the entries named \<open>SINK\<close> or \<open>TARGET\<close>, with one trailing slash stripped.
\<close>

definition sinkAddresses :: "EnvVar list \<Rightarrow> string list" where
  "sinkAddresses envs =
     map (\<lambda>e. TrimSuffix (env_Value e) ''/'')
       (filter (\<lambda>e. env_Name e = ''SINK'' \<or> env_Name e = ''TARGET'') envs)"

text \<open>
  After an operation that took the builder from \<open>g\<close> to \<open>h\<close>, the key \<open>k\<close> leads to a node
  that the operation constructed: a node of \<open>h\<close> that \<open>g\<close> did not have.
\<close>

definition stores :: "string \<Rightarrow> Graph \<Rightarrow> Graph \<Rightarrow> bool" where
  "stores k g h =
     (case map_of (nodes h) k of
        None \<Rightarrow> False
      | Some m \<Rightarrow> length (node_heap g) \<le> m \<and> m < length (node_heap h))"

definition storesR :: "string \<Rightarrow> Graph \<Rightarrow> panic + Graph \<Rightarrow> bool" where
  "storesR k g r = (case r of Inl p \<Rightarrow> True | Inr g' \<Rightarrow> stores k g g')"

text \<open>
  The step nodes that the loop of \<open>AddSequence\<close> constructs, in the order of the loop.
\<close>

fun stepNodes :: "string \<Rightarrow> nat \<Rightarrow> nat \<Rightarrow> nat \<Rightarrow> SubscriberSpec list \<Rightarrow> Graph \<Rightarrow> nat list" where
  "stepNodes name sg num previousNode [] g = []"
| "stepNodes name sg num previousNode (step # rest) g =
     (let (stepn, g8) = stepBody name sg num previousNode step g
      in stepn # stepNodes name sg (num + 1) stepn rest g8)"

section \<open>Concrete resources\<close>

text \<open>Small resources on which the theorems below are evaluated.\<close>

definition ex_channelRef :: "string \<Rightarrow> ObjectReference" where
  "ex_channelRef name =
     \<lparr>or_APIVersion = ''eventing.knative.dev/v1alpha1'', or_Kind = ''Channel'', or_Name = name,
      or_GroupVersionKind =
        \<lparr>Group = ''eventing.knative.dev'', Version = ''v1alpha1'', Kind = ''Channel''\<rparr>\<rparr>"

definition ex_channel :: Channel where
  "ex_channel =
     \<lparr>ch_Name = ''c'', ch_Kind = ''Channel'', ch_APIVersion = ''eventing.knative.dev/v1alpha1'',
      ch_URL = ''http://c.ns.svc.cluster.local/''\<rparr>"

text \<open>
  A subscription on channel \<open>a\<close> whose subscriber is the channel \<open>c\<close> and whose reply goes
  to the same channel \<open>c\<close>.
\<close>

definition ex_subscription :: Subscription where
  "ex_subscription =
     \<lparr>sn_Name = ''s'', sn_Channel = ex_channelRef ''a'',
      sn_Subscriber = Some \<lparr>sub_Ref = Some (ex_channelRef ''c''), sub_URI = None\<rparr>,
      sn_Reply = Some \<lparr>rep_Channel = Some (ex_channelRef ''c'')\<rparr>\<rparr>"

text \<open>A service whose only container names a sink that nothing serves.\<close>

definition ex_service :: Service where
  "ex_service =
     \<lparr>svc_Name = ''s'', svc_Kind = ''Service'', svc_APIVersion = ''serving.knative.dev/v1beta1'',
      svc_Containers = [\<lparr>c_Env = [\<lparr>env_Name = ''SINK'', env_Value = ''http://x/''\<rparr>]\<rparr>]\<rparr>"

definition ex_broker :: Broker where
  "ex_broker = \<lparr>br_Name = ''b'', br_URL = ''http://b.ns.svc.cluster.local/''\<rparr>"


text \<open>A source that delivers to the address of \<open>ex_channel\<close>, written without the slash.\<close>

definition ex_source :: SourceType where
  "ex_source =
     \<lparr>src_Name = ''ping'', src_Kind = ''CronJobSource'',
      src_APIVersion = ''sources.eventing.knative.dev/v1alpha1'',
      src_GroupVersionKind =
        \<lparr>Group = ''sources.eventing.knative.dev'', Version = ''v1alpha1'', Kind = ''CronJobSource''\<rparr>,
      src_SinkURI = Some ''http://c.ns.svc.cluster.local''\<rparr>"

text \<open>
  A resource listed as a source whose group, version, kind and name are those of the
  channel \<open>c\<close> itself, with the same sink.
\<close>

definition ex_colliding_source :: SourceType where
  "ex_colliding_source =
     \<lparr>src_Name = ''c'', src_Kind = ''Channel'',
      src_APIVersion = ''eventing.knative.dev/v1alpha1'',
      src_GroupVersionKind =
        \<lparr>Group = ''eventing.knative.dev'', Version = ''v1alpha1'', Kind = ''Channel''\<rparr>,
      src_SinkURI = Some ''http://c.ns.svc.cluster.local''\<rparr>"

text \<open>Two triggers on the broker \<open>b\<close>, with no filter and no subscriber.\<close>

definition ex_trigger :: "string \<Rightarrow> Trigger" where
  "ex_trigger name = \<lparr>tr_Name = name, tr_Broker = ''b'', tr_Filter = None, tr_Subscriber = None\<rparr>"

text \<open>A sequence of two steps, each delivering to an address, with no reply.\<close>

definition ex_sequence :: Sequence where
  "ex_sequence =
     \<lparr>seq_Name = ''q'', seq_URL = ''http://q.ns.svc.cluster.local/'',
      seq_Steps = [\<lparr>sub_Ref = None, sub_URI = Some ''http://a/''\<rparr>,
                   \<lparr>sub_Ref = None, sub_URI = Some ''http://b/''\<rparr>],
      seq_Reply = None\<rparr>"

section \<open>Facts about keys\<close>


lemma ToLower_append: "ToLower (a @ b) = ToLower a @ ToLower b"
  by (simp add: ToLower_def)

lemma ToLower_Nil: "ToLower [] = []"
  by (simp add: ToLower_def)

lemma ToLower_eq_Nil: "ToLower s = [] \<longleftrightarrow> s = []"
  by (simp add: ToLower_def)

lemma length_ToLower: "length (ToLower s) = length s"
  by (simp add: ToLower_def)

lemma ToLower_Cons: "ToLower (c # s) = toLowerByte c # ToLower s"
  by (simp add: ToLower_def)

lemma toLowerByte_lits:
  "toLowerByte CHR ''/'' = CHR ''/''" "toLowerByte CHR ''-'' = CHR ''-''"
  "toLowerByte CHR ''u'' = CHR ''u''" "toLowerByte CHR ''r'' = CHR ''r''"
  "toLowerByte CHR ''i'' = CHR ''i''"
  by code_simp+

lemma ToLower_slash: "ToLower ''/'' = ''/''"
  by code_simp

lemma ToLower_dash: "ToLower ''-'' = ''-''"
  by code_simp

lemma ToLower_eventing: "ToLower ''eventing.knative.dev'' = ''eventing.knative.dev''"
  by code_simp

lemma ToLower_messaging: "ToLower ''messaging.knative.dev'' = ''messaging.knative.dev''"
  by code_simp

lemma ToLower_serving: "ToLower ''serving.knative.dev'' = ''serving.knative.dev''"
  by code_simp

lemma ToLower_v1alpha1: "ToLower ''v1alpha1'' = ''v1alpha1''"
  by code_simp

lemma ToLower_v1beta1: "ToLower ''v1beta1'' = ''v1beta1''"
  by code_simp

lemma ToLower_kinds:
  "ToLower ''channel'' = ''channel''" "ToLower ''subscription'' = ''subscription''"
  "ToLower ''broker'' = ''broker''" "ToLower ''trigger'' = ''trigger''"
  "ToLower ''sequence'' = ''sequence''" "ToLower ''sequencestep'' = ''sequencestep''"
  "ToLower ''Channel'' = ''channel''" "ToLower ''uri/'' = ''uri/''"
  by code_simp+

lemmas ToLower_lits = ToLower_slash ToLower_dash ToLower_eventing ToLower_messaging ToLower_serving
  ToLower_v1alpha1 ToLower_v1beta1 ToLower_kinds

lemma key_nf: "key a b c d = ToLower a @ ''/'' @ ToLower b @ ''/'' @ ToLower c @ ''/'' @ ToLower d"
  by (simp add: key_def ToLower_append ToLower_Cons toLowerByte_lits)

lemma gvkKey_nf:
  "gvkKey gvk n = ToLower (Group gvk) @ ''/'' @ ToLower (Version gvk) @ ''/'' @ ToLower (Kind gvk) @ ''/'' @ ToLower n"
  by (simp add: gvkKey_def ToLower_append ToLower_Cons toLowerByte_lits)

lemma refKey_nf: "refKey a k n = ToLower a @ ''/'' @ ToLower k @ ''/'' @ ToLower n"
  by (simp add: refKey_def ToLower_append ToLower_Cons toLowerByte_lits)

lemma uriKey_nf: "uriKey u = ''uri/'' @ ToLower u"
  by (simp add: uriKey_def ToLower_Cons toLowerByte_lits)

lemma channelKey_nf: "channelKey n = ''eventing.knative.dev/v1alpha1/channel/'' @ ToLower n"
  by (simp add: channelKey_def eventingKey_def key_nf ToLower_lits)

lemma subscriptionKey_nf: "subscriptionKey n = ''eventing.knative.dev/v1alpha1/subscription/'' @ ToLower n"
  by (simp add: subscriptionKey_def eventingKey_def key_nf ToLower_lits)

lemma brokerKey_nf: "brokerKey n = ''eventing.knative.dev/v1alpha1/broker/'' @ ToLower n"
  by (simp add: brokerKey_def eventingKey_def key_nf ToLower_lits)

lemma triggerKey_nf: "triggerKey n = ''eventing.knative.dev/v1alpha1/trigger/'' @ ToLower n"
  by (simp add: triggerKey_def eventingKey_def key_nf ToLower_lits)

lemma sequenceKey_nf: "sequenceKey n = ''messaging.knative.dev/v1alpha1/sequence/'' @ ToLower n"
  by (simp add: sequenceKey_def messagingKey_def key_nf ToLower_lits)

lemma ToLower_dash_Cons: "ToLower (CHR ''-'' # s) = CHR ''-'' # ToLower s"
  by (simp add: ToLower_Cons toLowerByte_lits)

lemma sequenceStepKey_nf:
  "sequenceStepKey n i = ''messaging.knative.dev/v1alpha1/sequencestep/'' @ ToLower n @ ''-'' @ ToLower (fmtD i)"
  by (simp add: sequenceStepKey_def messagingKey_def key_nf ToLower_lits ToLower_append
      ToLower_dash_Cons)

lemma servingKey_nf: "servingKey k n = ''serving.knative.dev/v1beta1/'' @ ToLower k @ ''/'' @ ToLower n"
  by (simp add: servingKey_def key_nf ToLower_lits)

lemmas key_nfs = channelKey_nf subscriptionKey_nf brokerKey_nf triggerKey_nf sequenceKey_nf
  sequenceStepKey_nf servingKey_nf gvkKey_nf refKey_nf uriKey_nf


lemma slash_in_gvkKey: "CHR ''/'' \<in> set (gvkKey gvk n)"
  by (simp add: gvkKey_nf)

lemma slash_in_refKey: "CHR ''/'' \<in> set (refKey a k n)"
  by (simp add: refKey_nf)

lemma gvkKey_channel: "gvkKey \<lparr>Group = ''eventing.knative.dev'', Version = ''v1alpha1'', Kind = ''Channel''\<rparr> n = channelKey n"
  by (simp add: key_nfs ToLower_lits)

lemma digitByte_inj: "a < 10 \<Longrightarrow> b < 10 \<Longrightarrow> digitByte a = digitByte b \<Longrightarrow> a = b"
proof -
  assume a: "a < 10" and b: "b < 10" and e: "digitByte a = digitByte b"
  have "(of_char (digitByte a) :: nat) = of_char (digitByte b)" using e by simp
  then show "a = b" using a b by (simp add: digitByte_def)
qed

lemma toLowerByte_digitByte: "d < 10 \<Longrightarrow> toLowerByte (digitByte d) = digitByte d"
  by (simp add: toLowerByte_def digitByte_def Let_def)

lemma fmtD_not_Nil: "fmtD n \<noteq> []"
  by (subst fmtD.simps) simp

lemma ToLower_fmtD: "ToLower (fmtD n) = fmtD n"
proof (induction n rule: fmtD.induct)
  case (1 n)
  show ?case
  proof (cases "n < 10")
    case True
    then show ?thesis by (subst (1 2) fmtD.simps) (simp add: ToLower_Cons ToLower_Nil toLowerByte_digitByte)
  next
    case False
    then have "ToLower (fmtD (n div 10)) = fmtD (n div 10)" using 1 by simp
    then show ?thesis using False
      by (subst (1 2) fmtD.simps) (simp add: ToLower_append ToLower_Cons ToLower_Nil toLowerByte_digitByte)
  qed
qed

lemma fmtD_inj: "fmtD a = fmtD b \<Longrightarrow> a = b"
proof (induction a arbitrary: b rule: fmtD.induct)
  case (1 n)
  show ?case
  proof (cases "n < 10")
    case True
    note n10 = this
    show ?thesis
    proof (cases "b < 10")
      case True
      have "fmtD n = [digitByte n]" "fmtD b = [digitByte b]"
        using n10 True by (subst fmtD.simps, simp)+
      then show ?thesis using 1(2) n10 True by (auto dest: digitByte_inj)
    next
      case False
      have "fmtD n = [digitByte n]" using n10 by (subst fmtD.simps) simp
      moreover have "fmtD b = fmtD (b div 10) @ [digitByte (b mod 10)]"
        using False by (subst fmtD.simps) simp
      ultimately show ?thesis using 1(2) fmtD_not_Nil [of "b div 10"] by simp
    qed
  next
    case False
    note n10 = this
    have en: "fmtD n = fmtD (n div 10) @ [digitByte (n mod 10)]"
      using n10 by (subst fmtD.simps) simp
    show ?thesis
    proof (cases "b < 10")
      case True
      have "fmtD b = [digitByte b]" using True by (subst fmtD.simps) simp
      then show ?thesis using 1(2) en fmtD_not_Nil [of "n div 10"] by simp
    next
      case False
      have eb: "fmtD b = fmtD (b div 10) @ [digitByte (b mod 10)]"
        using False by (subst fmtD.simps) simp
      from 1(2) en eb have q: "fmtD (n div 10) = fmtD (b div 10)"
        and r: "digitByte (n mod 10) = digitByte (b mod 10)" by simp_all
      from 1(1) [OF n10 q] have "n div 10 = b div 10" .
      moreover have "n mod 10 = b mod 10"
        by (rule digitByte_inj [OF _ _ r]) simp_all
      ultimately show ?thesis by (metis div_mult_mod_eq)
    qed
  qed
qed

lemma sequenceStepKey_inj: "sequenceStepKey n i = sequenceStepKey n j \<Longrightarrow> i = j"
  by (simp add: sequenceStepKey_nf ToLower_fmtD fmtD_inj)


lemma keys_not_question:
  "channelKey a \<noteq> ''?''" "subscriptionKey a \<noteq> ''?''" "brokerKey a \<noteq> ''?''"
  "triggerKey a \<noteq> ''?''" "sequenceKey a \<noteq> ''?''" "sequenceStepKey a i \<noteq> ''?''"
  "gvkKey gvk a \<noteq> ''?''" "servingKey k a \<noteq> ''?''" "uriKey a \<noteq> ''?''" "refKey v k a \<noteq> ''?''"
  using slash_in_gvkKey [of gvk a] slash_in_refKey [of v k a]
  by (auto simp add: channelKey_nf subscriptionKey_nf brokerKey_nf triggerKey_nf sequenceKey_nf
      sequenceStepKey_nf servingKey_nf uriKey_nf)

lemma keys_not_empty:
  "channelKey a \<noteq> []" "subscriptionKey a \<noteq> []" "brokerKey a \<noteq> []"
  "triggerKey a \<noteq> []" "sequenceKey a \<noteq> []" "sequenceStepKey a i \<noteq> []"
  "gvkKey gvk a \<noteq> []" "servingKey k a \<noteq> []" "uriKey a \<noteq> []" "refKey v k a \<noteq> []"
  using slash_in_gvkKey [of gvk a] slash_in_refKey [of v k a]
  by (auto simp add: channelKey_nf subscriptionKey_nf brokerKey_nf triggerKey_nf sequenceKey_nf
      sequenceStepKey_nf servingKey_nf uriKey_nf)

lemma subscriberKey_not_empty: "fst (subscriberKeyLabel s) \<noteq> []"
  by (simp add: subscriberKeyLabel_def keys_not_empty split: option.splits)

lemma keys_distinct:
  "subscriptionKey a \<noteq> channelKey b" "channelKey b \<noteq> subscriptionKey a"
  "triggerKey a \<noteq> brokerKey b" "brokerKey b \<noteq> triggerKey a"
  "sequenceKey a \<noteq> sequenceStepKey b i" "sequenceStepKey b i \<noteq> sequenceKey a"
  by (simp_all add: channelKey_nf subscriptionKey_nf brokerKey_nf triggerKey_nf sequenceKey_nf
      sequenceStepKey_nf)

lemma subscriberKey_nil: "fst (subscriberKeyLabel None) = ''?''"
  by (simp add: subscriberKeyLabel_def)

lemmas dot_defs = NewNode_def Node_Set_def NewSubgraph_def SubGraph_Set_def SubGraph_AddNode_def
  AddNode_def AddSubgraph_def NewEdge_def Edge_Set_def AddEdge_def setNodeShapeForKind_def


section \<open>Facts about the calls into the drawing library\<close>

text \<open>Each call changes one component of the state and leaves the others as they are.\<close>

lemma dot_frames:
  "sg_heap (snd (NewNode nm g)) = sg_heap g"
  "doc_name (snd (NewNode nm g)) = doc_name g"
  "doc_attrs (snd (NewNode nm g)) = doc_attrs g"
  "doc_nodes (snd (NewNode nm g)) = doc_nodes g"
  "doc_edges (snd (NewNode nm g)) = doc_edges g"
  "doc_subgraphs (snd (NewNode nm g)) = doc_subgraphs g"
  "nodes (snd (NewNode nm g)) = nodes g"
  "subgraphs (snd (NewNode nm g)) = subgraphs g"
  "dnsToKey (snd (NewNode nm g)) = dnsToKey g"
  "edgeCount (snd (NewNode nm g)) = edgeCount g"
  "rainbowEdge (snd (NewNode nm g)) = rainbowEdge g"
  "sg_heap (Node_Set n k v g) = sg_heap g"
  "doc_name (Node_Set n k v g) = doc_name g"
  "doc_attrs (Node_Set n k v g) = doc_attrs g"
  "doc_nodes (Node_Set n k v g) = doc_nodes g"
  "doc_edges (Node_Set n k v g) = doc_edges g"
  "doc_subgraphs (Node_Set n k v g) = doc_subgraphs g"
  "nodes (Node_Set n k v g) = nodes g"
  "subgraphs (Node_Set n k v g) = subgraphs g"
  "dnsToKey (Node_Set n k v g) = dnsToKey g"
  "edgeCount (Node_Set n k v g) = edgeCount g"
  "rainbowEdge (Node_Set n k v g) = rainbowEdge g"
  "sg_heap (setNodeShapeForKind n kind apiVersion g) = sg_heap g"
  "doc_name (setNodeShapeForKind n kind apiVersion g) = doc_name g"
  "doc_attrs (setNodeShapeForKind n kind apiVersion g) = doc_attrs g"
  "doc_nodes (setNodeShapeForKind n kind apiVersion g) = doc_nodes g"
  "doc_edges (setNodeShapeForKind n kind apiVersion g) = doc_edges g"
  "doc_subgraphs (setNodeShapeForKind n kind apiVersion g) = doc_subgraphs g"
  "nodes (setNodeShapeForKind n kind apiVersion g) = nodes g"
  "subgraphs (setNodeShapeForKind n kind apiVersion g) = subgraphs g"
  "dnsToKey (setNodeShapeForKind n kind apiVersion g) = dnsToKey g"
  "edgeCount (setNodeShapeForKind n kind apiVersion g) = edgeCount g"
  "rainbowEdge (setNodeShapeForKind n kind apiVersion g) = rainbowEdge g"
  "node_heap (snd (NewSubgraph nm g)) = node_heap g"
  "doc_name (snd (NewSubgraph nm g)) = doc_name g"
  "doc_attrs (snd (NewSubgraph nm g)) = doc_attrs g"
  "doc_nodes (snd (NewSubgraph nm g)) = doc_nodes g"
  "doc_edges (snd (NewSubgraph nm g)) = doc_edges g"
  "doc_subgraphs (snd (NewSubgraph nm g)) = doc_subgraphs g"
  "nodes (snd (NewSubgraph nm g)) = nodes g"
  "subgraphs (snd (NewSubgraph nm g)) = subgraphs g"
  "dnsToKey (snd (NewSubgraph nm g)) = dnsToKey g"
  "edgeCount (snd (NewSubgraph nm g)) = edgeCount g"
  "rainbowEdge (snd (NewSubgraph nm g)) = rainbowEdge g"
  "node_heap (SubGraph_Set s k v g) = node_heap g"
  "doc_name (SubGraph_Set s k v g) = doc_name g"
  "doc_attrs (SubGraph_Set s k v g) = doc_attrs g"
  "doc_nodes (SubGraph_Set s k v g) = doc_nodes g"
  "doc_edges (SubGraph_Set s k v g) = doc_edges g"
  "doc_subgraphs (SubGraph_Set s k v g) = doc_subgraphs g"
  "nodes (SubGraph_Set s k v g) = nodes g"
  "subgraphs (SubGraph_Set s k v g) = subgraphs g"
  "dnsToKey (SubGraph_Set s k v g) = dnsToKey g"
  "edgeCount (SubGraph_Set s k v g) = edgeCount g"
  "rainbowEdge (SubGraph_Set s k v g) = rainbowEdge g"
  "node_heap (SubGraph_AddNode s n g) = node_heap g"
  "doc_name (SubGraph_AddNode s n g) = doc_name g"
  "doc_attrs (SubGraph_AddNode s n g) = doc_attrs g"
  "doc_nodes (SubGraph_AddNode s n g) = doc_nodes g"
  "doc_edges (SubGraph_AddNode s n g) = doc_edges g"
  "doc_subgraphs (SubGraph_AddNode s n g) = doc_subgraphs g"
  "nodes (SubGraph_AddNode s n g) = nodes g"
  "subgraphs (SubGraph_AddNode s n g) = subgraphs g"
  "dnsToKey (SubGraph_AddNode s n g) = dnsToKey g"
  "edgeCount (SubGraph_AddNode s n g) = edgeCount g"
  "rainbowEdge (SubGraph_AddNode s n g) = rainbowEdge g"
  "node_heap (AddNode n g) = node_heap g"
  "sg_heap (AddNode n g) = sg_heap g"
  "doc_name (AddNode n g) = doc_name g"
  "doc_attrs (AddNode n g) = doc_attrs g"
  "doc_edges (AddNode n g) = doc_edges g"
  "doc_subgraphs (AddNode n g) = doc_subgraphs g"
  "nodes (AddNode n g) = nodes g"
  "subgraphs (AddNode n g) = subgraphs g"
  "dnsToKey (AddNode n g) = dnsToKey g"
  "edgeCount (AddNode n g) = edgeCount g"
  "rainbowEdge (AddNode n g) = rainbowEdge g"
  "node_heap (AddSubgraph s g) = node_heap g"
  "sg_heap (AddSubgraph s g) = sg_heap g"
  "doc_name (AddSubgraph s g) = doc_name g"
  "doc_attrs (AddSubgraph s g) = doc_attrs g"
  "doc_nodes (AddSubgraph s g) = doc_nodes g"
  "doc_edges (AddSubgraph s g) = doc_edges g"
  "nodes (AddSubgraph s g) = nodes g"
  "subgraphs (AddSubgraph s g) = subgraphs g"
  "dnsToKey (AddSubgraph s g) = dnsToKey g"
  "edgeCount (AddSubgraph s g) = edgeCount g"
  "rainbowEdge (AddSubgraph s g) = rainbowEdge g"
  "node_heap (AddEdge e g) = node_heap g"
  "sg_heap (AddEdge e g) = sg_heap g"
  "doc_name (AddEdge e g) = doc_name g"
  "doc_attrs (AddEdge e g) = doc_attrs g"
  "doc_nodes (AddEdge e g) = doc_nodes g"
  "doc_subgraphs (AddEdge e g) = doc_subgraphs g"
  "nodes (AddEdge e g) = nodes g"
  "subgraphs (AddEdge e g) = subgraphs g"
  "dnsToKey (AddEdge e g) = dnsToKey g"
  "edgeCount (AddEdge e g) = edgeCount g"
  "rainbowEdge (AddEdge e g) = rainbowEdge g"
  by (simp_all add: dot_defs)

lemma dot_effects:
  "fst (NewNode nm g) = length (node_heap g)"
  "node_heap (snd (NewNode nm g)) = node_heap g @ [\<lparr>n_name = nm, n_attrs = []\<rparr>]"
  "fst (NewSubgraph nm g) = length (sg_heap g)"
  "sg_heap (snd (NewSubgraph nm g)) = sg_heap g @ [\<lparr>sg_name = nm, sg_attrs = [], sg_nodes = []\<rparr>]"
  "length (node_heap (Node_Set n k v g)) = length (node_heap g)"
  "length (node_heap (setNodeShapeForKind n kind apiVersion g)) = length (node_heap g)"
  "length (sg_heap (SubGraph_Set s k v g)) = length (sg_heap g)"
  "length (sg_heap (SubGraph_AddNode s n g)) = length (sg_heap g)"
  "doc_nodes (AddNode n g) = doc_nodes g @ [n]"
  "doc_subgraphs (AddSubgraph s g) = doc_subgraphs g @ [s]"
  "doc_edges (AddEdge e g) = doc_edges g @ [e]"
  by (simp_all add: dot_defs)

lemma n_name_Node_Set: "n_name (node_heap (Node_Set n k v g) ! i) = n_name (node_heap g ! i)"
  by (cases "n < length (node_heap g)") (simp_all add: Node_Set_def nth_list_update list_update_beyond)

lemma n_name_setNodeShapeForKind:
  "n_name (node_heap (setNodeShapeForKind n kind apiVersion g) ! i) = n_name (node_heap g ! i)"
  by (simp add: setNodeShapeForKind_def n_name_Node_Set)

lemma sg_nodes_SubGraph_Set:
  "sg_nodes (sg_heap (SubGraph_Set s k v g) ! i) = sg_nodes (sg_heap g ! i)"
  by (cases "s < length (sg_heap g)") (simp_all add: SubGraph_Set_def nth_list_update list_update_beyond)


section \<open>Facts about the resolution helpers\<close>

text \<open>
  What one subscriber resolution does, field by field: it answers with a node, the one
  stored under the subscriber key or else a new one that it stores there; it touches
  neither the edges nor the clusters nor the address index.
\<close>

lemma fst_getOrCreateSubscriber:
  "fst (getOrCreateSubscriber s g) =
     Some (case map_of (nodes g) (fst (subscriberKeyLabel s)) of
             Some n \<Rightarrow> n | None \<Rightarrow> length (node_heap g))"
  by (simp add: getOrCreateSubscriber_def dot_defs Let_def case_prod_beta split: option.splits)

lemma snd_getOrCreateSubscriber:
  "nodes (snd (getOrCreateSubscriber s g)) =
     (case map_of (nodes g) (fst (subscriberKeyLabel s)) of
        Some n \<Rightarrow> nodes g
      | None \<Rightarrow> AList.update (fst (subscriberKeyLabel s)) (length (node_heap g)) (nodes g))"
  "doc_nodes (snd (getOrCreateSubscriber s g)) =
     (case map_of (nodes g) (fst (subscriberKeyLabel s)) of
        Some n \<Rightarrow> doc_nodes g
      | None \<Rightarrow> doc_nodes g @ [length (node_heap g)])"
  "length (node_heap (snd (getOrCreateSubscriber s g))) =
     (case map_of (nodes g) (fst (subscriberKeyLabel s)) of
        Some n \<Rightarrow> length (node_heap g)
      | None \<Rightarrow> length (node_heap g) + 1)"
  "doc_edges (snd (getOrCreateSubscriber s g)) = doc_edges g"
  "edgeCount (snd (getOrCreateSubscriber s g)) = edgeCount g"
  "rainbowEdge (snd (getOrCreateSubscriber s g)) = rainbowEdge g"
  "dnsToKey (snd (getOrCreateSubscriber s g)) = dnsToKey g"
  "subgraphs (snd (getOrCreateSubscriber s g)) = subgraphs g"
  "sg_heap (snd (getOrCreateSubscriber s g)) = sg_heap g"
  "doc_subgraphs (snd (getOrCreateSubscriber s g)) = doc_subgraphs g"
  by (simp_all add: getOrCreateSubscriber_def dot_defs Let_def case_prod_beta split: option.splits)

lemma heap_getOrCreateSubscriber:
  "i < length (node_heap g) \<Longrightarrow> node_heap (snd (getOrCreateSubscriber s g)) ! i = node_heap g ! i"
  by (simp add: getOrCreateSubscriber_def dot_defs Let_def case_prod_beta nth_append
      split: option.splits)

lemma getOrCreateSubscriber_hit:
  "map_of (nodes g) (fst (subscriberKeyLabel s)) = Some n \<Longrightarrow>
   getOrCreateSubscriber s g = (Some n, g)"
  by (simp add: getOrCreateSubscriber_def case_prod_beta)

lemma fst_getOrCreateReply:
  "fst (getOrCreateReply rep g) =
     (case rep of None \<Rightarrow> None
      | Some r \<Rightarrow> (case rep_Channel r of None \<Rightarrow> None
                  | Some c \<Rightarrow> map_of (nodes g) (channelKey (or_Name c))))"
  by (simp add: getOrCreateReply_def dot_defs Let_def case_prod_beta split: option.splits)

lemma snd_getOrCreateReply:
  "nodes (snd (getOrCreateReply rep g)) = nodes g"
  "doc_nodes (snd (getOrCreateReply rep g)) = doc_nodes g"
  "doc_edges (snd (getOrCreateReply rep g)) = doc_edges g"
  "edgeCount (snd (getOrCreateReply rep g)) = edgeCount g"
  "rainbowEdge (snd (getOrCreateReply rep g)) = rainbowEdge g"
  "dnsToKey (snd (getOrCreateReply rep g)) = dnsToKey g"
  "subgraphs (snd (getOrCreateReply rep g)) = subgraphs g"
  "sg_heap (snd (getOrCreateReply rep g)) = sg_heap g"
  "doc_subgraphs (snd (getOrCreateReply rep g)) = doc_subgraphs g"
  by (simp_all add: getOrCreateReply_def dot_defs Let_def case_prod_beta split: option.splits)

lemma getOrCreateReply_miss:
  "map_of (nodes g) (channelKey (or_Name c)) = None \<Longrightarrow> rep_Channel r = Some c \<Longrightarrow>
   getOrCreateReply (Some r) g =
     (None, g\<lparr>node_heap := node_heap g @
                 [\<lparr>n_name = ''Unknown Channel '' @ or_Name c, n_attrs = []\<rparr>]\<rparr>)"
  by (simp add: getOrCreateReply_def dot_defs Let_def)

lemma fst_getOrCreateSink:
  "fst (getOrCreateSink uri g) =
     (case map_of (dnsToKey g) (TrimSuffix uri ''/'') of
        None \<Rightarrow> map_of (nodes g) []
      | Some k \<Rightarrow> map_of (nodes g) k)"
  by (simp add: getOrCreateSink_def dot_defs Let_def case_prod_beta split: option.splits)

lemma snd_getOrCreateSink:
  "nodes (snd (getOrCreateSink uri g)) = nodes g"
  "doc_edges (snd (getOrCreateSink uri g)) = doc_edges g"
  "edgeCount (snd (getOrCreateSink uri g)) = edgeCount g"
  "rainbowEdge (snd (getOrCreateSink uri g)) = rainbowEdge g"
  "dnsToKey (snd (getOrCreateSink uri g)) = dnsToKey g"
  "subgraphs (snd (getOrCreateSink uri g)) = subgraphs g"
  "sg_heap (snd (getOrCreateSink uri g)) = sg_heap g"
  "doc_subgraphs (snd (getOrCreateSink uri g)) = doc_subgraphs g"
  by (simp_all add: getOrCreateSink_def dot_defs Let_def case_prod_beta split: option.splits)

lemmas helper_simps = fst_getOrCreateSubscriber snd_getOrCreateSubscriber
  fst_getOrCreateReply snd_getOrCreateReply fst_getOrCreateSink snd_getOrCreateSink
section \<open>Which node index entries an operation keeps\<close>

lemma keeps_refl: "keeps K g g"
  by (simp add: keeps_def)

lemma keeps_trans: "keeps K g h \<Longrightarrow> keeps K h h' \<Longrightarrow> keeps K g h'"
  unfolding keeps_def by (metis not_Some_eq)

lemma keeps_mono: "K \<subseteq> K' \<Longrightarrow> keeps K g h \<Longrightarrow> keeps K' g h"
  unfolding keeps_def by blast

lemma keepsD:
  "keeps K g h \<Longrightarrow> map_of (nodes g) k = Some n \<Longrightarrow> k \<notin> K \<Longrightarrow> map_of (nodes h) k = Some n"
  by (simp add: keeps_def)

lemma keeps_presentD:
  "keeps K g h \<Longrightarrow> map_of (nodes g) k \<noteq> None \<Longrightarrow> map_of (nodes h) k \<noteq> None"
  by (auto simp add: keeps_def)

lemma keeps_store:
  "k \<in> K \<or> map_of (nodes h) k = None \<Longrightarrow> keeps K g h \<Longrightarrow>
   keeps K g (h\<lparr>nodes := AList.update k v (nodes h)\<rparr>)"
  by (auto simp add: keeps_def update_conv')

lemma keeps_other_fields:
  "keeps K g h \<Longrightarrow> keeps K g (h\<lparr>dnsToKey := d\<rparr>)"
  "keeps K g h \<Longrightarrow> keeps K g (h\<lparr>subgraphs := s\<rparr>)"
  "keeps K g h \<Longrightarrow> keeps K g (h\<lparr>edgeCount := c\<rparr>)"
  by (simp_all add: keeps_def)

lemma keeps_dot:
  "keeps K g h \<Longrightarrow> keeps K g (snd (NewNode nm h))"
  "keeps K g h \<Longrightarrow> keeps K g (Node_Set n k v h)"
  "keeps K g h \<Longrightarrow> keeps K g (setNodeShapeForKind n kind apiVersion h)"
  "keeps K g h \<Longrightarrow> keeps K g (snd (NewSubgraph nm h))"
  "keeps K g h \<Longrightarrow> keeps K g (SubGraph_Set s k v h)"
  "keeps K g h \<Longrightarrow> keeps K g (SubGraph_AddNode s n h)"
  "keeps K g h \<Longrightarrow> keeps K g (AddNode n h)"
  "keeps K g h \<Longrightarrow> keeps K g (AddSubgraph s h)"
  "keeps K g h \<Longrightarrow> keeps K g (AddEdge e h)"
  by (simp_all add: keeps_def dot_frames)

lemma keeps_helpers:
  "keeps K g h \<Longrightarrow> keeps K g (snd (getOrCreateSubscriber s h))"
  "keeps K g h \<Longrightarrow> keeps K g (snd (getOrCreateReply r h))"
  "keeps K g h \<Longrightarrow> keeps K g (snd (getOrCreateSink u h))"
  by (auto simp add: keeps_def helper_simps update_conv' split: option.splits)

lemma keeps_case_option:
  "(x = None \<Longrightarrow> keeps K g a) \<Longrightarrow> (\<And>y. x = Some y \<Longrightarrow> keeps K g (b y)) \<Longrightarrow>
   keeps K g (case x of None \<Rightarrow> a | Some y \<Rightarrow> b y)"
  by (cases x) simp_all

lemma keeps_snd_case_option:
  "(x = None \<Longrightarrow> keeps K g (snd a)) \<Longrightarrow> (\<And>y. x = Some y \<Longrightarrow> keeps K g (snd (b y))) \<Longrightarrow>
   keeps K g (snd (case x of None \<Rightarrow> a | Some y \<Rightarrow> b y))"
  by (cases x) simp_all

lemma keeps_snd_Pair: "keeps K g h \<Longrightarrow> keeps K g (snd (a, h))"
  by simp

lemma keeps_if: "(c \<Longrightarrow> keeps K g a) \<Longrightarrow> (\<not> c \<Longrightarrow> keeps K g b) \<Longrightarrow> keeps K g (if c then a else b)"
  by simp

lemmas keeps_rules = keeps_refl keeps_store keeps_other_fields keeps_dot keeps_helpers
  keeps_case_option keeps_snd_case_option keeps_snd_Pair keeps_if

lemma AddChannel_keeps: "keeps {channelKey (ch_Name c)} g (AddChannel c g)"
  unfolding AddChannel_def Let_def case_prod_beta
  by (intro keeps_rules) simp_all

lemma AddBroker_keeps: "keeps {brokerKey (br_Name b)} g (AddBroker b g)"
  unfolding AddBroker_def Let_def case_prod_beta
  by (intro keeps_rules) simp_all

lemma keeps_snd_snd_case_option:
  "(x = None \<Longrightarrow> keeps K g (snd (snd a))) \<Longrightarrow>
   (\<And>y. x = Some y \<Longrightarrow> keeps K g (snd (snd (b y)))) \<Longrightarrow>
   keeps K g (snd (snd (case x of None \<Rightarrow> a | Some y \<Rightarrow> b y)))"
  by (cases x) simp_all

lemma keeps_snd_snd_Pair: "keeps K g h \<Longrightarrow> keeps K g (snd (snd (a, b, h)))"
  by simp

lemma AddSource_keeps:
  "keeps {gvkKey (src_GroupVersionKind s) (src_Name s)} g (AddSource s g)"
  unfolding AddSource_def Let_def case_prod_beta
  by (intro keeps_rules keeps_snd_snd_case_option keeps_snd_snd_Pair) simp_all

lemma AddTrigger_keeps: "keeps {triggerKey (tr_Name t)} g (AddTrigger t g)"
  unfolding AddTrigger_def Let_def case_prod_beta
  by (intro keeps_rules) (simp_all add: dot_frames)

text \<open>Operations that may panic: the property is about the state they return.\<close>

lemma newEdge_nodes: "newEdge colors s d h = Inr x \<Longrightarrow> nodes (snd x) = nodes h"
  by (auto simp add: newEdge_def Let_def split: if_splits)

lemma keepsR_Inr: "keeps K g h \<Longrightarrow> keepsR K g (Inr h)"
  by (simp add: keepsR_def)

lemma keepsR_Inl: "keepsR K g (Inl p)"
  by (simp add: keepsR_def)

lemma keepsR_case_option:
  "(x = None \<Longrightarrow> keepsR K g a) \<Longrightarrow> (\<And>y. x = Some y \<Longrightarrow> keepsR K g (b y)) \<Longrightarrow>
   keepsR K g (case x of None \<Rightarrow> a | Some y \<Rightarrow> b y)"
  by (cases x) simp_all

lemma keepsR_case_list:
  "(x = [] \<Longrightarrow> keepsR K g a) \<Longrightarrow> (\<And>y ys. x = y # ys \<Longrightarrow> keepsR K g (b y ys)) \<Longrightarrow>
   keepsR K g (case x of [] \<Rightarrow> a | y # ys \<Rightarrow> b y ys)"
  by (cases x) simp_all

lemma keepsR_newEdge:
  "keeps K g h \<Longrightarrow>
   keepsR K g (case newEdge colors s d h of
                 Inl p \<Rightarrow> Inl p | Inr x \<Rightarrow> Inr (AddEdge (E x) (snd x)))"
  by (cases "newEdge colors s d h")
     (auto simp add: keepsR_def newEdge_def Let_def keeps_other_fields keeps_dot
        split: if_splits)

lemmas keepsR_rules = keepsR_Inr keepsR_Inl keepsR_case_option keepsR_case_list keepsR_newEdge

lemma AddSubscription_keepsR:
  "keepsR {subscriptionKey (sn_Name s)} g (AddSubscription colors s g)"
  unfolding AddSubscription_def Let_def case_prod_beta
  by (intro keepsR_rules keeps_rules) simp_all

lemma keeps_envLoop: "keeps K g h \<Longrightarrow> keeps K g (envLoop svc envs h)"
  by (induction envs arbitrary: h)
     (simp_all add: Let_def case_prod_beta keeps_dot keeps_helpers)

lemma AddKnService_keepsR: "keepsR {} g (AddKnService s g)"
  unfolding AddKnService_def Let_def case_prod_beta
  by (intro keepsR_rules keeps_rules keeps_envLoop) (simp_all add: dot_frames)

lemma keeps_stepLoop:
  "keeps K g h \<Longrightarrow> (\<forall>i < length steps. sequenceStepKey name (num + i) \<in> K) \<Longrightarrow>
   keeps K g (snd (stepLoop name sg num prev steps h))"
proof (induction steps arbitrary: h num prev)
  case Nil
  then show ?case by simp
next
  case (Cons step rest)
  have own: "sequenceStepKey name num \<in> K"
    using Cons.prems(2) by force
  have rest: "\<forall>i < length rest. sequenceStepKey name (num + 1 + i) \<in> K"
    using Cons.prems(2) by force
  have "keeps K g (snd (stepBody name sg num prev step h))"
    unfolding stepBody_def Let_def case_prod_beta
    by (intro keeps_rules keeps_snd_Pair Cons.prems(1)) (simp_all add: own)
  then show ?case
    unfolding stepLoop.simps Let_def case_prod_beta
    by (intro Cons.IH rest)
qed

lemma AddSequence_keeps: "keeps (set (ownKeys (CallAddSequence s))) g (AddSequence s g)"
  unfolding AddSequence_def Let_def case_prod_beta
  by (intro keeps_rules keeps_stepLoop) simp_all

lemma perform_keeps:
  assumes "perform colors c g = Inr g'"
  shows "keeps (set (ownKeys c)) g g'"
proof (cases c)
  case (CallAddChannel x)
  then show ?thesis using assms AddChannel_keeps [of x g] by auto
next
  case (CallAddSubscription x)
  then show ?thesis using assms AddSubscription_keepsR [of x g colors] by (auto simp add: keepsR_def)
next
  case (CallAddBroker x)
  then show ?thesis using assms AddBroker_keeps [of x g] by auto
next
  case (CallAddSource x)
  then show ?thesis using assms AddSource_keeps [of x g] by auto
next
  case (CallAddTrigger x)
  then show ?thesis using assms AddTrigger_keeps [of x g] by auto
next
  case (CallAddKnService x)
  then show ?thesis using assms AddKnService_keepsR [of g x] by (auto simp add: keepsR_def)
next
  case (CallAddSequence x)
  then show ?thesis using assms AddSequence_keeps [of x g] by auto
qed

text \<open>
  Over a whole build: a node stays under its key as long as no operation of the build adds
  a resource of that key.
\<close>

lemma build_keeps:
  assumes "build colors cs g = Inr g'" and "map_of (nodes g) k = Some n"
    and "\<forall>c \<in> set cs. k \<notin> set (ownKeys c)"
  shows "map_of (nodes g') k = Some n"
  using assms
proof (induction cs arbitrary: g)
  case Nil
  then show ?case by simp
next
  case (Cons c cs)
  from Cons.prems(1) obtain h where h: "perform colors c g = Inr h" and r: "build colors cs h = Inr g'"
    by (auto split: sum.splits)
  from perform_keeps [OF h] Cons.prems(2,3) have "map_of (nodes h) k = Some n"
    by (auto dest: keepsD)
  then show ?case using Cons.IH [OF r] Cons.prems(3) by simp
qed

section \<open>What the add operations do to single components\<close>

lemma created_Node_Set: "created (Node_Set n k v g) = created g"
  by (cases "n < length (node_heap g)")
     (simp_all add: created_def Node_Set_def map_update list_update_beyond list_update_same_conv)

lemma created_dot:
  "created (snd (NewNode nm g)) = created g @ [nm]"
  "created (setNodeShapeForKind n kind apiVersion g) = created g"
  "created (snd (NewSubgraph nm g)) = created g"
  "created (SubGraph_Set s k v g) = created g"
  "created (SubGraph_AddNode s n g) = created g"
  "created (AddNode n g) = created g"
  "created (AddSubgraph s g) = created g"
  "created (AddEdge e g) = created g"
  "created (g\<lparr>nodes := ns\<rparr>) = created g"
  "created (g\<lparr>dnsToKey := d\<rparr>) = created g"
  "created (g\<lparr>subgraphs := sgs\<rparr>) = created g"
  "created (g\<lparr>edgeCount := c\<rparr>) = created g"
  "length (created g) = length (node_heap g)"
  by (simp_all add: created_Node_Set setNodeShapeForKind_def)
     (simp_all add: created_def dot_defs)

lemma created_New: "created (New ns) = []"
  by (simp add: created_def New_def)

lemma New_fields:
  "nodes (New ns) = []" "dnsToKey (New ns) = []" "subgraphs (New ns) = []"
  "node_heap (New ns) = []" "sg_heap (New ns) = []" "doc_edges (New ns) = []"
  "doc_nodes (New ns) = []" "edgeCount (New ns) = 0"
  by (simp_all add: New_def)

lemma AddChannel_fields:
  "nodes (AddChannel c g) = AList.update (channelKey (ch_Name c)) (length (node_heap g)) (nodes g)"
  "dnsToKey (AddChannel c g) =
     AList.update (TrimSuffix (ch_URL c) ''/'') (channelKey (ch_Name c)) (dnsToKey g)"
  "subgraphs (AddChannel c g) =
     AList.update (channelKey (ch_Name c)) (length (sg_heap g)) (subgraphs g)"
  "doc_edges (AddChannel c g) = doc_edges g"
  "length (node_heap (AddChannel c g)) = length (node_heap g) + 1"
  "created (AddChannel c g) = created g @ [''Channel '' @ ch_Name c]"
  by (simp_all add: AddChannel_def Let_def case_prod_beta dot_frames dot_effects created_dot
      created_Node_Set)

lemmas step_simps = Let_def case_prod_beta dot_frames dot_effects helper_simps update_conv'
section \<open>The address index\<close>

lemma set_update_subset: "set (AList.update k v al) \<subseteq> insert (k, v) (set al)"
  by (induction al) auto

lemma addressesResolve_frame:
  "addressesResolve g \<Longrightarrow> keeps K g g' \<Longrightarrow> dnsToKey g' = dnsToKey g \<Longrightarrow> addressesResolve g'"
  by (auto simp add: addressesResolve_def list_all_iff keeps_def)

lemma addressesResolve_update:
  assumes "addressesResolve g" and "keeps K g g'"
    and "dnsToKey g' = AList.update d k (dnsToKey g)" and "map_of (nodes g') k \<noteq> None"
  shows "addressesResolve g'"
  unfolding addressesResolve_def list_all_iff
proof (intro ballI)
  fix x assume "x \<in> set (dnsToKey g')"
  then have "x = (d, k) \<or> x \<in> set (dnsToKey g)"
    using assms(3) set_update_subset [of d k "dnsToKey g"] by auto
  then show "case x of (d, k) \<Rightarrow> map_of (nodes g') k \<noteq> None"
    using assms(1,2,4) by (auto simp add: addressesResolve_def list_all_iff keeps_def)
qed

lemma addressesResolveD:
  "addressesResolve g \<Longrightarrow> map_of (dnsToKey g) d = Some k \<Longrightarrow> map_of (nodes g) k \<noteq> None"
  by (auto simp add: addressesResolve_def list_all_iff dest!: map_of_SomeD)

lemma AddBroker_fields:
  "nodes (AddBroker b g) = AList.update (brokerKey (br_Name b)) (length (node_heap g)) (nodes g)"
  "dnsToKey (AddBroker b g) =
     AList.update (TrimSuffix (br_URL b) ''/'') (brokerKey (br_Name b)) (dnsToKey g)"
  by (simp_all add: AddBroker_def Let_def case_prod_beta dot_frames dot_effects)

lemma dnsToKey_AddSource: "dnsToKey (AddSource s g) = dnsToKey g"
  by (cases "map_of (dnsToKey g) (sinkDNS s)")
     (auto simp add: AddSource_def step_simps split: option.splits)

lemma dnsToKey_AddTrigger: "dnsToKey (AddTrigger t g) = dnsToKey g"
  by (simp add: AddTrigger_def step_simps split: option.splits)

lemma dnsToKey_AddSubscription:
  "AddSubscription colors s g = Inr g' \<Longrightarrow> dnsToKey g' = dnsToKey g"
  by (auto simp add: AddSubscription_def step_simps newEdge_def
      split: option.splits sum.splits if_splits)

lemma dnsToKey_envLoop: "dnsToKey (envLoop svc envs g) = dnsToKey g"
  by (induction envs arbitrary: g) (simp_all add: step_simps)

lemma dnsToKey_AddKnService:
  "AddKnService s g = Inr g' \<Longrightarrow> dnsToKey g' = dnsToKey g"
  by (auto simp add: AddKnService_def step_simps dnsToKey_envLoop split: option.splits list.splits)

lemma dnsToKey_stepLoop: "dnsToKey (snd (stepLoop name sg num prev steps g)) = dnsToKey g"
  by (induction steps arbitrary: g num prev) (simp_all add: stepBody_def step_simps)

lemma dnsToKey_AddSequence:
  "dnsToKey (AddSequence s g) =
     AList.update (TrimSuffix (seq_URL s) ''/'') (sequenceKey (seq_Name s)) (dnsToKey g)"
  by (simp add: AddSequence_def step_simps dnsToKey_stepLoop split: option.splits)

lemma present_dot:
  "map_of (nodes h) k \<noteq> None \<Longrightarrow> map_of (nodes (snd (NewNode nm h))) k \<noteq> None"
  "map_of (nodes h) k \<noteq> None \<Longrightarrow> map_of (nodes (Node_Set n att v h)) k \<noteq> None"
  "map_of (nodes h) k \<noteq> None \<Longrightarrow> map_of (nodes (SubGraph_AddNode s n h)) k \<noteq> None"
  "map_of (nodes h) k \<noteq> None \<Longrightarrow> map_of (nodes (AddNode n h)) k \<noteq> None"
  "map_of (nodes h) k \<noteq> None \<Longrightarrow> map_of (nodes (AddSubgraph s h)) k \<noteq> None"
  "map_of (nodes h) k \<noteq> None \<Longrightarrow> map_of (nodes (AddEdge e h)) k \<noteq> None"
  "map_of (nodes h) k \<noteq> None \<Longrightarrow> map_of (nodes (h\<lparr>subgraphs := sgs\<rparr>)) k \<noteq> None"
  "map_of (nodes h) k \<noteq> None \<Longrightarrow>
     map_of (nodes (snd (stepLoop name sg num prev steps h))) k \<noteq> None"
  "(x = None \<Longrightarrow> map_of (nodes a) k \<noteq> None) \<Longrightarrow>
   (\<And>y. x = Some y \<Longrightarrow> map_of (nodes (b y)) k \<noteq> None) \<Longrightarrow>
     map_of (nodes (case x of None \<Rightarrow> a | Some y \<Rightarrow> b y)) k \<noteq> None"
  using keeps_stepLoop [of UNIV h h steps name num sg prev]
  by (auto simp add: dot_frames keeps_refl split: option.splits dest: keeps_presentD)

lemma present_store: "map_of (nodes (h\<lparr>nodes := AList.update k v (nodes h)\<rparr>)) k \<noteq> None"
  by (simp add: update_conv')

lemma present_AddSequence: "map_of (nodes (AddSequence s g)) (sequenceKey (seq_Name s)) \<noteq> None"
  unfolding AddSequence_def Let_def case_prod_beta
  by (intro present_dot present_store)

lemma perform_addressesResolve:
  assumes p: "perform colors c g = Inr g'" and inv: "addressesResolve g"
  shows "addressesResolve g'"
proof -
  note k = perform_keeps [OF p]
  show ?thesis
  proof (cases c)
    case (CallAddChannel x)
    then have g': "g' = AddChannel x g" using p by simp
    show ?thesis
      by (rule addressesResolve_update [OF inv k, where d = "TrimSuffix (ch_URL x) ''/''"
            and k = "channelKey (ch_Name x)"])
         (simp_all add: g' AddChannel_fields update_conv')
  next
    case (CallAddSubscription x)
    then have "AddSubscription colors x g = Inr g'" using p by simp
    then have "dnsToKey g' = dnsToKey g" by (rule dnsToKey_AddSubscription)
    then show ?thesis by (rule addressesResolve_frame [OF inv k])
  next
    case (CallAddBroker x)
    then have g': "g' = AddBroker x g" using p by simp
    show ?thesis
      by (rule addressesResolve_update [OF inv k, where d = "TrimSuffix (br_URL x) ''/''"
            and k = "brokerKey (br_Name x)"])
         (simp_all add: g' AddBroker_fields update_conv')
  next
    case (CallAddSource x)
    then have g': "g' = AddSource x g" using p by simp
    show ?thesis
      by (rule addressesResolve_frame [OF inv k]) (simp add: g' dnsToKey_AddSource)
  next
    case (CallAddTrigger x)
    then have g': "g' = AddTrigger x g" using p by simp
    show ?thesis
      by (rule addressesResolve_frame [OF inv k]) (simp add: g' dnsToKey_AddTrigger)
  next
    case (CallAddKnService x)
    then have "AddKnService x g = Inr g'" using p by simp
    then have "dnsToKey g' = dnsToKey g" by (rule dnsToKey_AddKnService)
    then show ?thesis by (rule addressesResolve_frame [OF inv k])
  next
    case (CallAddSequence x)
    then have g': "g' = AddSequence x g" using p by simp
    show ?thesis
      by (rule addressesResolve_update [OF inv k, where d = "TrimSuffix (seq_URL x) ''/''"
            and k = "sequenceKey (seq_Name x)"])
         (simp_all only: g' dnsToKey_AddSequence present_AddSequence not_False_eq_True)
  qed
qed

lemma build_addressesResolve:
  "build colors cs g = Inr g' \<Longrightarrow> addressesResolve g \<Longrightarrow> addressesResolve g'"
proof (induction cs arbitrary: g)
  case Nil
  then show ?case by simp
next
  case (Cons c cs)
  from Cons.prems(1) obtain h where h: "perform colors c g = Inr h" and r: "build colors cs h = Inr g'"
    by (auto split: sum.splits)
  show ?case
    using Cons.IH [OF r perform_addressesResolve [OF h Cons.prems(2)]] .
qed

lemma addressesResolve_New: "addressesResolve (New ns)"
  by (simp add: addressesResolve_def New_fields)
lemma TrimSuffix_slash: "TrimSuffix (u @ ''/'') ''/'' = u"
  by (simp add: TrimSuffix_def HasSuffix_def)

lemma TrimSuffix_no_slash: "\<not> HasSuffix u ''/'' \<Longrightarrow> TrimSuffix u ''/'' = u"
  by (simp add: TrimSuffix_def)

lemma AddSource_created:
  "created (AddSource s g) =
     created g @
       (''Source '' @ src_Name s @ ''\<newline>Kind: '' @ src_Kind s @ ''\<newline>'' @ src_APIVersion s) #
       (if sinkDNS s \<noteq> [] \<and>
           (case map_of (dnsToKey g) (sinkDNS s) of
              None \<Rightarrow> True
            | Some bk \<Rightarrow>
                map_of (nodes g) bk = None \<and> bk \<noteq> gvkKey (src_GroupVersionKind s) (src_Name s))
        then [''UnknownSink '' @ sinkDNS s] else [])"
  by (cases "map_of (dnsToKey g) (sinkDNS s)")
     (auto simp add: AddSource_def step_simps created_dot created_Node_Set split: option.splits)

lemma AddSource_edges:
  assumes "sinkDNS s \<noteq> []" and "map_of (dnsToKey g) (sinkDNS s) = Some bk"
    and "map_of (nodes g) bk = Some b"
    and "bk \<noteq> gvkKey (src_GroupVersionKind s) (src_Name s)"
  shows "doc_edges (AddSource s g) =
     doc_edges g @
       [case map_of (subgraphs g) bk of
          None \<Rightarrow> NewEdge (Some (length (node_heap g))) (Some b)
        | Some sg \<Rightarrow> Edge_Set ''lhead'' (sg_name (sg_heap g ! sg))
                      (NewEdge (Some (length (node_heap g))) (Some b))]"
  using assms
  by (auto simp add: AddSource_def step_simps split: option.splits)

lemma AddSource_own_sink_edges:
  assumes "sinkDNS s \<noteq> []"
    and "map_of (dnsToKey g) (sinkDNS s) = Some (gvkKey (src_GroupVersionKind s) (src_Name s))"
  shows "doc_edges (AddSource s g) =
     doc_edges g @
       [case map_of (subgraphs g) (gvkKey (src_GroupVersionKind s) (src_Name s)) of
          None \<Rightarrow> NewEdge (Some (length (node_heap g))) (Some (length (node_heap g)))
        | Some sg \<Rightarrow> Edge_Set ''lhead'' (sg_name (sg_heap g ! sg))
                      (NewEdge (Some (length (node_heap g))) (Some (length (node_heap g))))]"
  using assms
  by (auto simp add: AddSource_def step_simps split: option.splits)

lemma AddSource_no_sink: "sinkDNS s = [] \<Longrightarrow> doc_edges (AddSource s g) = doc_edges g"
  by (simp add: AddSource_def step_simps)

section \<open>Triggers and their brokers\<close>

lemma created_helpers:
  "created (snd (getOrCreateSubscriber s h)) =
     created h @ (case map_of (nodes h) (fst (subscriberKeyLabel s)) of
                    Some n \<Rightarrow> [] | None \<Rightarrow> [snd (subscriberKeyLabel s)])"
  "created (snd (getOrCreateReply r h)) =
     created h @ (case r of None \<Rightarrow> []
        | Some x \<Rightarrow> (case rep_Channel x of None \<Rightarrow> []
            | Some c \<Rightarrow> (case map_of (nodes h) (channelKey (or_Name c)) of
                Some n \<Rightarrow> [] | None \<Rightarrow> [''Unknown Channel '' @ or_Name c])))"
  "created (snd (getOrCreateSink u h)) =
     created h @ (case map_of (dnsToKey h) (TrimSuffix u ''/'') of
                    Some k \<Rightarrow> [] | None \<Rightarrow> [''UnknownSink '' @ TrimSuffix u ''/''])"
  by (simp_all add: getOrCreateSubscriber_def getOrCreateReply_def getOrCreateSink_def Let_def
      case_prod_beta created_dot created_Node_Set split: option.splits)

lemma short_case: "length (case x of None \<Rightarrow> [a] | Some y \<Rightarrow> []) \<le> Suc 0"
  by (cases x) simp_all

lemma AddTrigger_created:
  "\<exists>rest. length rest \<le> 1 \<and>
     created (AddTrigger t g) =
       created g @
       (case map_of (nodes g) (brokerKey (tr_Broker t)) of
          None \<Rightarrow> [''UnknownBroker '' @ tr_Broker t] | Some b \<Rightarrow> []) @
       [''Trigger '' @ tr_Name t] @ rest"
proof -
  have "created (AddTrigger t g) =
       created g @
       (case map_of (nodes g) (brokerKey (tr_Broker t)) of
          None \<Rightarrow> [''UnknownBroker '' @ tr_Broker t] | Some b \<Rightarrow> []) @
       [''Trigger '' @ tr_Name t] @
       drop (length (created g) +
           (case map_of (nodes g) (brokerKey (tr_Broker t)) of None \<Rightarrow> 2 | Some b \<Rightarrow> 1))
         (created (AddTrigger t g)) \<and>
     length (created (AddTrigger t g)) \<le> length (created g) +
           (case map_of (nodes g) (brokerKey (tr_Broker t)) of None \<Rightarrow> 2 | Some b \<Rightarrow> 1) + 1"
    by (cases "map_of (nodes g) (brokerKey (tr_Broker t))";
        cases "map_of (subgraphs g) (brokerKey (tr_Broker t))"; cases "tr_Filter t")
       (simp_all add: AddTrigger_def step_simps created_dot created_Node_Set created_helpers
          short_case split: option.splits)
  then show ?thesis
    by (intro exI [of _ "drop (length (created g) +
           (case map_of (nodes g) (brokerKey (tr_Broker t)) of None \<Rightarrow> 2 | Some b \<Rightarrow> 1))
         (created (AddTrigger t g))"]) auto
qed

lemma has_rules:
  "map_of (nodes h) k = Some n \<Longrightarrow> map_of (nodes (snd (NewNode nm h))) k = Some n"
  "map_of (nodes h) k = Some n \<Longrightarrow> map_of (nodes (Node_Set i att v h)) k = Some n"
  "map_of (nodes h) k = Some n \<Longrightarrow> map_of (nodes (SubGraph_AddNode s i h)) k = Some n"
  "map_of (nodes h) k = Some n \<Longrightarrow> map_of (nodes (AddNode i h)) k = Some n"
  "map_of (nodes h) k = Some n \<Longrightarrow> map_of (nodes (AddEdge e h)) k = Some n"
  "map_of (nodes h) k = Some n \<Longrightarrow> map_of (nodes (snd (getOrCreateSubscriber sub h))) k = Some n"
  "(x = None \<Longrightarrow> map_of (nodes a) k = Some n) \<Longrightarrow>
   (\<And>y. x = Some y \<Longrightarrow> map_of (nodes (b y)) k = Some n) \<Longrightarrow>
     map_of (nodes (case x of None \<Rightarrow> a | Some y \<Rightarrow> b y)) k = Some n"
  "(x = None \<Longrightarrow> map_of (nodes (snd c)) k = Some n) \<Longrightarrow>
   (\<And>y. x = Some y \<Longrightarrow> map_of (nodes (snd (d y))) k = Some n) \<Longrightarrow>
     map_of (nodes (snd (case x of None \<Rightarrow> c | Some y \<Rightarrow> d y))) k = Some n"
  by (auto simp add: dot_frames snd_getOrCreateSubscriber update_conv' split: option.splits)

lemma has_store_here:
  "v = n \<Longrightarrow> map_of (nodes (snd (w, h\<lparr>nodes := AList.update k v (nodes h)\<rparr>))) k = Some n"
  by (simp add: update_conv')

lemma has_store_other:
  "k' \<noteq> k \<Longrightarrow> map_of (nodes h) k = Some n \<Longrightarrow>
   map_of (nodes (h\<lparr>nodes := AList.update k' v (nodes h)\<rparr>)) k = Some n"
  by (simp add: update_conv')

lemma has_snd_Pair: "map_of (nodes h) k = Some n \<Longrightarrow> map_of (nodes (snd (w, h))) k = Some n"
  by simp

lemma AddTrigger_missing_broker:
  assumes "map_of (nodes g) (brokerKey (tr_Broker t)) = None"
  shows "map_of (nodes (AddTrigger t g)) (brokerKey (tr_Broker t)) = Some (length (node_heap g))"
  unfolding AddTrigger_def Let_def case_prod_beta
  apply (simp only: assms option.case)
  apply (intro has_rules has_store_here has_store_other has_snd_Pair)
   apply (simp_all (no_asm) add: keys_distinct dot_effects)
  done


section \<open>The cluster index and the address index over a build\<close>


lemma sg_AddChannel: "length (sg_heap (AddChannel c g)) = length (sg_heap g) + 1"
  by (simp add: AddChannel_def Let_def case_prod_beta dot_frames dot_effects)







lemma grows_refl: "grows i g g"
  by (simp add: grows_def)

lemma take_take_prefix:
  "take (length a) b = a \<Longrightarrow> take (length b) c = b \<Longrightarrow> take (length a) c = a"
  by (metis append_eq_conv_conj append_take_drop_id append.assoc)

lemma grows_trans: "grows i g h \<Longrightarrow> grows i h h' \<Longrightarrow> grows i g h'"
  unfolding grows_def by (auto intro: take_take_prefix)

lemma grows_step: "grows i h h' \<Longrightarrow> grows i g h \<Longrightarrow> grows i g h'"
  by (rule grows_trans)

lemma grows_fields:
  "grows i g h \<Longrightarrow> grows i g (h\<lparr>nodes := m\<rparr>)"
  "grows i g h \<Longrightarrow> grows i g (h\<lparr>dnsToKey := d\<rparr>)"
  "grows i g h \<Longrightarrow> grows i g (h\<lparr>subgraphs := s\<rparr>)"
  "grows i g h \<Longrightarrow> grows i g (h\<lparr>edgeCount := c\<rparr>)"
  by (simp_all add: grows_def)

lemma grows_same:
  "grows i g h \<Longrightarrow> sg_heap h' = sg_heap h \<Longrightarrow> length (node_heap h) \<le> length (node_heap h') \<Longrightarrow>
   grows i g h'"
  by (simp add: grows_def)

lemma grows_NewSubgraph: "grows i h (snd (NewSubgraph nm h))"
  by (simp add: grows_def NewSubgraph_def nth_append)

lemma grows_SubGraph_Set: "grows i h (SubGraph_Set s k v h)"
  by (simp add: grows_def dot_frames dot_effects sg_nodes_SubGraph_Set)

lemma grows_SubGraph_AddNode: "grows i h (SubGraph_AddNode s n h)"
  by (cases "s < length (sg_heap h)")
     (simp_all add: grows_def SubGraph_AddNode_def nth_list_update list_update_beyond)

lemma grows_dot:
  "grows i g h \<Longrightarrow> grows i g (snd (NewNode nm h))"
  "grows i g h \<Longrightarrow> grows i g (Node_Set n k v h)"
  "grows i g h \<Longrightarrow> grows i g (setNodeShapeForKind n kind apiVersion h)"
  "grows i g h \<Longrightarrow> grows i g (snd (NewSubgraph nm h))"
  "grows i g h \<Longrightarrow> grows i g (SubGraph_Set s k v h)"
  "grows i g h \<Longrightarrow> grows i g (SubGraph_AddNode s n h)"
  "grows i g h \<Longrightarrow> grows i g (AddNode n h)"
  "grows i g h \<Longrightarrow> grows i g (AddSubgraph s h)"
  "grows i g h \<Longrightarrow> grows i g (AddEdge e h)"
proof -
  assume a: "grows i g h"
  show "grows i g (snd (NewNode nm h))"
    using a by (rule grows_same) (simp_all add: dot_frames dot_effects)
  show "grows i g (Node_Set n k v h)"
    using a by (rule grows_same) (simp_all add: dot_frames dot_effects)
  show "grows i g (setNodeShapeForKind n kind apiVersion h)"
    using a by (rule grows_same) (simp_all add: dot_frames dot_effects)
  show "grows i g (snd (NewSubgraph nm h))"
    using a grows_NewSubgraph by (rule grows_trans)
  show "grows i g (SubGraph_Set s k v h)"
    using a grows_SubGraph_Set by (rule grows_trans)
  show "grows i g (SubGraph_AddNode s n h)"
    using a grows_SubGraph_AddNode by (rule grows_trans)
  show "grows i g (AddNode n h)"
    using a by (rule grows_same) (simp_all add: dot_frames)
  show "grows i g (AddSubgraph s h)"
    using a by (rule grows_same) (simp_all add: dot_frames)
  show "grows i g (AddEdge e h)"
    using a by (rule grows_same) (simp_all add: dot_frames)
qed

lemma grows_helpers:
  "grows i g h \<Longrightarrow> grows i g (snd (getOrCreateSubscriber s h))"
  "grows i g h \<Longrightarrow> grows i g (snd (getOrCreateReply r h))"
  "grows i g h \<Longrightarrow> grows i g (snd (getOrCreateSink u h))"
proof -
  assume a: "grows i g h"
  show "grows i g (snd (getOrCreateSubscriber s h))"
    using a by (rule grows_same) (simp_all add: helper_simps split: option.splits)
  show "grows i g (snd (getOrCreateReply r h))"
    using a
    by (rule grows_same)
       (simp_all add: getOrCreateReply_def dot_defs Let_def case_prod_beta split: option.splits)
  show "grows i g (snd (getOrCreateSink u h))"
    using a
    by (rule grows_same)
       (simp_all add: getOrCreateSink_def dot_defs Let_def case_prod_beta split: option.splits)
qed

lemma grows_case_option:
  "(x = None \<Longrightarrow> grows i g a) \<Longrightarrow> (\<And>y. x = Some y \<Longrightarrow> grows i g (b y)) \<Longrightarrow>
   grows i g (case x of None \<Rightarrow> a | Some y \<Rightarrow> b y)"
  by (cases x) simp_all

lemma grows_snd_case_option:
  "(x = None \<Longrightarrow> grows i g (snd a)) \<Longrightarrow> (\<And>y. x = Some y \<Longrightarrow> grows i g (snd (b y))) \<Longrightarrow>
   grows i g (snd (case x of None \<Rightarrow> a | Some y \<Rightarrow> b y))"
  by (cases x) simp_all

lemma grows_snd_snd_case_option:
  "(x = None \<Longrightarrow> grows i g (snd (snd a))) \<Longrightarrow>
   (\<And>y. x = Some y \<Longrightarrow> grows i g (snd (snd (b y)))) \<Longrightarrow>
   grows i g (snd (snd (case x of None \<Rightarrow> a | Some y \<Rightarrow> b y)))"
  by (cases x) simp_all

lemma grows_snd_Pair: "grows i g h \<Longrightarrow> grows i g (snd (a, h))"
  by simp

lemma grows_snd_snd_Pair: "grows i g h \<Longrightarrow> grows i g (snd (snd (a, b, h)))"
  by simp

lemma grows_if: "(c \<Longrightarrow> grows i g a) \<Longrightarrow> (\<not> c \<Longrightarrow> grows i g b) \<Longrightarrow> grows i g (if c then a else b)"
  by simp

lemmas grows_rules = grows_refl grows_fields grows_dot grows_helpers grows_case_option
  grows_snd_case_option grows_snd_snd_case_option grows_snd_Pair grows_snd_snd_Pair grows_if

lemma AddChannel_grows: "grows i g (AddChannel c g)"
  unfolding AddChannel_def Let_def case_prod_beta by (intro grows_rules)

lemma AddBroker_grows: "grows i g (AddBroker b g)"
  unfolding AddBroker_def Let_def case_prod_beta by (intro grows_rules)

lemma AddSource_grows: "grows i g (AddSource s g)"
  unfolding AddSource_def Let_def case_prod_beta by (intro grows_rules)

lemma AddTrigger_grows: "grows i g (AddTrigger t g)"
  unfolding AddTrigger_def Let_def case_prod_beta by (intro grows_rules)

lemma growsR_Inr: "grows i g h \<Longrightarrow> growsR i g (Inr h)"
  by (simp add: growsR_def)

lemma growsR_Inl: "growsR i g (Inl p)"
  by (simp add: growsR_def)

lemma growsR_case_option:
  "(x = None \<Longrightarrow> growsR i g a) \<Longrightarrow> (\<And>y. x = Some y \<Longrightarrow> growsR i g (b y)) \<Longrightarrow>
   growsR i g (case x of None \<Rightarrow> a | Some y \<Rightarrow> b y)"
  by (cases x) simp_all

lemma growsR_case_list:
  "(x = [] \<Longrightarrow> growsR i g a) \<Longrightarrow> (\<And>y ys. x = y # ys \<Longrightarrow> growsR i g (b y ys)) \<Longrightarrow>
   growsR i g (case x of [] \<Rightarrow> a | y # ys \<Rightarrow> b y ys)"
  by (cases x) simp_all

lemma growsR_newEdge:
  "grows i g h \<Longrightarrow>
   growsR i g (case newEdge colors s d h of
                 Inl p \<Rightarrow> Inl p | Inr x \<Rightarrow> Inr (AddEdge (E x) (snd x)))"
  by (cases "newEdge colors s d h")
     (auto simp add: growsR_def newEdge_def Let_def grows_fields grows_dot
        split: if_splits)

lemmas growsR_rules = growsR_Inr growsR_Inl growsR_case_option growsR_case_list growsR_newEdge

lemma AddSubscription_growsR: "growsR i g (AddSubscription colors s g)"
  unfolding AddSubscription_def Let_def case_prod_beta
  by (intro growsR_rules grows_rules)

lemma grows_envLoop: "grows i g h \<Longrightarrow> grows i g (envLoop svc envs h)"
  by (induction envs arbitrary: h)
     (simp_all add: Let_def case_prod_beta grows_dot grows_helpers)

lemma AddKnService_growsR: "growsR i g (AddKnService s g)"
  unfolding AddKnService_def Let_def case_prod_beta
  by (intro growsR_rules grows_rules grows_envLoop)

lemma grows_stepLoop:
  "grows i g h \<Longrightarrow> grows i g (snd (stepLoop name sg num prev steps h))"
proof (induction steps arbitrary: h num prev)
  case Nil
  then show ?case by simp
next
  case (Cons step rest)
  have "grows i g (snd (stepBody name sg num prev step h))"
    unfolding stepBody_def Let_def case_prod_beta
    by (intro grows_rules Cons.prems)
  then show ?case
    unfolding stepLoop.simps Let_def case_prod_beta
    by (intro Cons.IH)
qed

lemma AddSequence_grows: "grows i g (AddSequence s g)"
  unfolding AddSequence_def Let_def case_prod_beta
  by (intro grows_rules grows_stepLoop)

lemma perform_grows:
  assumes "perform colors c g = Inr g'"
  shows "grows i g g'"
proof (cases c)
  case (CallAddChannel x)
  then show ?thesis using assms AddChannel_grows [of i g x] by auto
next
  case (CallAddSubscription x)
  then show ?thesis using assms AddSubscription_growsR [of i g colors x]
    by (auto simp add: growsR_def)
next
  case (CallAddBroker x)
  then show ?thesis using assms AddBroker_grows [of i g x] by auto
next
  case (CallAddSource x)
  then show ?thesis using assms AddSource_grows [of i g x] by auto
next
  case (CallAddTrigger x)
  then show ?thesis using assms AddTrigger_grows [of i g x] by auto
next
  case (CallAddKnService x)
  then show ?thesis using assms AddKnService_growsR [of i g x] by (auto simp add: growsR_def)
next
  case (CallAddSequence x)
  then show ?thesis using assms AddSequence_grows [of i g x] by auto
qed

lemma build_grows:
  "build colors cs g = Inr g' \<Longrightarrow> grows i g g'"
proof (induction cs arbitrary: g)
  case Nil
  then show ?case by (simp add: grows_refl)
next
  case (Cons c cs)
  from Cons.prems obtain h where h: "perform colors c g = Inr h" and r: "build colors cs h = Inr g'"
    by (auto split: sum.splits)
  from perform_grows [OF h] Cons.IH [OF r] show ?case by (rule grows_trans)
qed



lemma perform_address_index:
  assumes "perform colors c g = Inr g'" and "d \<notin> set (ownAddresses c)"
  shows "map_of (dnsToKey g') d = map_of (dnsToKey g) d"
proof (cases c)
  case (CallAddChannel x)
  then show ?thesis using assms by (auto simp add: AddChannel_fields update_conv')
next
  case (CallAddSubscription x)
  then show ?thesis using assms dnsToKey_AddSubscription [of colors x g g'] by auto
next
  case (CallAddBroker x)
  then show ?thesis using assms by (auto simp add: AddBroker_fields update_conv')
next
  case (CallAddSource x)
  then show ?thesis using assms by (auto simp add: dnsToKey_AddSource)
next
  case (CallAddTrigger x)
  then show ?thesis using assms by (auto simp add: dnsToKey_AddTrigger)
next
  case (CallAddKnService x)
  then show ?thesis using assms dnsToKey_AddKnService [of x g g'] by auto
next
  case (CallAddSequence x)
  then show ?thesis using assms by (auto simp add: dnsToKey_AddSequence update_conv')
qed

lemma build_address_index:
  "build colors cs g = Inr g' \<Longrightarrow> \<forall>c \<in> set cs. d \<notin> set (ownAddresses c) \<Longrightarrow>
   map_of (dnsToKey g') d = map_of (dnsToKey g) d"
proof (induction cs arbitrary: g)
  case Nil
  then show ?case by simp
next
  case (Cons c cs)
  from Cons.prems(1) obtain h where h: "perform colors c g = Inr h" and r: "build colors cs h = Inr g'"
    by (auto split: sum.splits)
  from perform_address_index [OF h] Cons.prems(2) have "map_of (dnsToKey h) d = map_of (dnsToKey g) d"
    by simp
  then show ?case using Cons.IH [OF r] Cons.prems(2) by simp
qed
section \<open>Lookups that hit, and nodes stored without a lookup\<close>

lemma getOrCreateReply_hit:
  "rep_Channel r = Some c \<Longrightarrow> map_of (nodes g) (channelKey (or_Name c)) = Some n \<Longrightarrow>
   getOrCreateReply (Some r) g = (Some n, g)"
  by (simp add: getOrCreateReply_def)

lemma AddKnService_hit:
  "map_of (nodes g) (servingKey (svc_Kind s) (svc_Name s)) = Some n \<Longrightarrow>
   AddKnService s g =
     (case svc_Containers s of [] \<Rightarrow> Inl IndexOutOfRange | c # cs \<Rightarrow> Inr (envLoop n (c_Env c) g))"
  by (simp add: AddKnService_def)

lemma envLoop_indexes:
  "nodes (envLoop svc envs g) = nodes g"
  by (induction envs arbitrary: g) (simp_all add: step_simps)

lemma envLoop_created:
  "created (envLoop svc envs g) =
     created g @ map (\<lambda>u. ''UnknownSink '' @ u)
                   (filter (\<lambda>u. map_of (dnsToKey g) u = None) (sinkAddresses envs))"
proof (induction envs arbitrary: g)
  case Nil
  then show ?case by (simp add: sinkAddresses_def)
next
  case (Cons env rest)
  show ?case
  proof (cases "env_Name env = ''SINK'' \<or> env_Name env = ''TARGET''")
    case True
    have "created (envLoop svc (env # rest) g) =
        created (envLoop svc rest
          (AddEdge (NewEdge (Some svc) (fst (getOrCreateSink (env_Value env) g)))
             (snd (getOrCreateSink (env_Value env) g))))"
      using True by (simp add: Let_def case_prod_beta)
    also have "\<dots> = created (snd (getOrCreateSink (env_Value env) g)) @
        map (\<lambda>u. ''UnknownSink '' @ u)
          (filter (\<lambda>u. map_of (dnsToKey g) u = None) (sinkAddresses rest))"
      by (simp add: Cons.IH created_dot dot_frames helper_simps)
    finally show ?thesis
      using True by (simp add: created_helpers sinkAddresses_def split: option.splits)
  next
    case False
    then show ?thesis by (simp add: Cons.IH sinkAddresses_def)
  qed
qed

lemma envLoop_edges:
  "doc_edges (envLoop svc envs g) =
     doc_edges g @
       map (\<lambda>u. NewEdge (Some svc)
                  (case map_of (dnsToKey g) u of
                     None \<Rightarrow> map_of (nodes g) []
                   | Some k \<Rightarrow> map_of (nodes g) k))
         (sinkAddresses envs)"
proof (induction envs arbitrary: g)
  case Nil
  then show ?case by (simp add: sinkAddresses_def)
next
  case (Cons env rest)
  show ?case
  proof (cases "env_Name env = ''SINK'' \<or> env_Name env = ''TARGET''")
    case True
    have "doc_edges (envLoop svc (env # rest) g) =
        doc_edges (envLoop svc rest
          (AddEdge (NewEdge (Some svc) (fst (getOrCreateSink (env_Value env) g)))
             (snd (getOrCreateSink (env_Value env) g))))"
      using True by (simp add: Let_def case_prod_beta)
    also have "\<dots> = doc_edges g @
        NewEdge (Some svc) (fst (getOrCreateSink (env_Value env) g)) #
        map (\<lambda>u. NewEdge (Some svc)
                  (case map_of (dnsToKey g) u of
                     None \<Rightarrow> map_of (nodes g) []
                   | Some k \<Rightarrow> map_of (nodes g) k))
         (sinkAddresses rest)"
      by (simp add: Cons.IH dot_frames dot_effects helper_simps cong: option.case_cong)
    finally show ?thesis
      using True
      by (simp add: sinkAddresses_def getOrCreateSink_def Let_def case_prod_beta dot_frames
          split: option.splits)
  next
    case False
    then show ?thesis by (simp add: Cons.IH sinkAddresses_def)
  qed
qed

lemma stores_store:
  "(k' \<noteq> k \<Longrightarrow> stores k g h) \<Longrightarrow>
   (k' = k \<Longrightarrow> length (node_heap g) \<le> v \<and> v < length (node_heap h)) \<Longrightarrow>
   stores k g (h\<lparr>nodes := AList.update k' v (nodes h)\<rparr>)"
  by (cases "k' = k") (auto simp add: stores_def update_conv' split: option.splits)

lemma stores_same:
  "stores k g h \<Longrightarrow> nodes h' = nodes h \<Longrightarrow> length (node_heap h) \<le> length (node_heap h') \<Longrightarrow>
   stores k g h'"
  by (auto simp add: stores_def split: option.splits)

lemma stores_fields:
  "stores k g h \<Longrightarrow> stores k g (h\<lparr>dnsToKey := d\<rparr>)"
  "stores k g h \<Longrightarrow> stores k g (h\<lparr>subgraphs := s\<rparr>)"
  "stores k g h \<Longrightarrow> stores k g (h\<lparr>edgeCount := c\<rparr>)"
  by (auto simp add: stores_def split: option.splits)

lemma stores_dot:
  "stores k g h \<Longrightarrow> stores k g (snd (NewNode nm h))"
  "stores k g h \<Longrightarrow> stores k g (Node_Set n att v h)"
  "stores k g h \<Longrightarrow> stores k g (setNodeShapeForKind n kind apiVersion h)"
  "stores k g h \<Longrightarrow> stores k g (snd (NewSubgraph nm h))"
  "stores k g h \<Longrightarrow> stores k g (SubGraph_Set s att v h)"
  "stores k g h \<Longrightarrow> stores k g (SubGraph_AddNode s n h)"
  "stores k g h \<Longrightarrow> stores k g (AddNode n h)"
  "stores k g h \<Longrightarrow> stores k g (AddSubgraph s h)"
  "stores k g h \<Longrightarrow> stores k g (AddEdge e h)"
proof -
  assume a: "stores k g h"
  show "stores k g (snd (NewNode nm h))"
    using a by (rule stores_same) (simp_all add: dot_frames dot_effects)
  show "stores k g (Node_Set n att v h)"
    using a by (rule stores_same) (simp_all add: dot_frames dot_effects)
  show "stores k g (setNodeShapeForKind n kind apiVersion h)"
    using a by (rule stores_same) (simp_all add: dot_frames dot_effects)
  show "stores k g (snd (NewSubgraph nm h))"
    using a by (rule stores_same) (simp_all add: dot_frames dot_effects)
  show "stores k g (SubGraph_Set s att v h)"
    using a by (rule stores_same) (simp_all add: dot_frames dot_effects)
  show "stores k g (SubGraph_AddNode s n h)"
    using a by (rule stores_same) (simp_all add: dot_frames dot_effects)
  show "stores k g (AddNode n h)"
    using a by (rule stores_same) (simp_all add: dot_frames dot_effects)
  show "stores k g (AddSubgraph s h)"
    using a by (rule stores_same) (simp_all add: dot_frames dot_effects)
  show "stores k g (AddEdge e h)"
    using a by (rule stores_same) (simp_all add: dot_frames dot_effects)
qed

lemma stores_helpers:
  "stores k g h \<Longrightarrow> stores k g (snd (getOrCreateSubscriber s h))"
  "stores k g h \<Longrightarrow> stores k g (snd (getOrCreateReply r h))"
  "stores k g h \<Longrightarrow> stores k g (snd (getOrCreateSink u h))"
proof -
  assume a: "stores k g h"
  show "stores k g (snd (getOrCreateSubscriber s h))"
  proof (cases "map_of (nodes h) (fst (subscriberKeyLabel s))")
    case None
    with a have "fst (subscriberKeyLabel s) \<noteq> k"
      by (auto simp add: stores_def)
    with a None show ?thesis
      by (simp add: stores_def helper_simps update_conv' split: option.splits)
  next
    case (Some n)
    then show ?thesis using a by (simp add: getOrCreateSubscriber_hit)
  qed
  show "stores k g (snd (getOrCreateReply r h))"
    using a
    by (rule stores_same)
       (simp_all add: getOrCreateReply_def dot_defs Let_def case_prod_beta split: option.splits)
  show "stores k g (snd (getOrCreateSink u h))"
    using a
    by (rule stores_same)
       (simp_all add: getOrCreateSink_def dot_defs Let_def case_prod_beta split: option.splits)
qed

lemma stores_case_option:
  "(x = None \<Longrightarrow> stores k g a) \<Longrightarrow> (\<And>y. x = Some y \<Longrightarrow> stores k g (b y)) \<Longrightarrow>
   stores k g (case x of None \<Rightarrow> a | Some y \<Rightarrow> b y)"
  by (cases x) simp_all

lemma stores_snd_case_option:
  "(x = None \<Longrightarrow> stores k g (snd a)) \<Longrightarrow> (\<And>y. x = Some y \<Longrightarrow> stores k g (snd (b y))) \<Longrightarrow>
   stores k g (snd (case x of None \<Rightarrow> a | Some y \<Rightarrow> b y))"
  by (cases x) simp_all

lemma stores_snd_snd_case_option:
  "(x = None \<Longrightarrow> stores k g (snd (snd a))) \<Longrightarrow>
   (\<And>y. x = Some y \<Longrightarrow> stores k g (snd (snd (b y)))) \<Longrightarrow>
   stores k g (snd (snd (case x of None \<Rightarrow> a | Some y \<Rightarrow> b y)))"
  by (cases x) simp_all

lemma stores_snd_Pair: "stores k g h \<Longrightarrow> stores k g (snd (a, h))"
  by simp

lemma stores_snd_snd_Pair: "stores k g h \<Longrightarrow> stores k g (snd (snd (a, b, h)))"
  by simp

lemma stores_if: "(c \<Longrightarrow> stores k g a) \<Longrightarrow> (\<not> c \<Longrightarrow> stores k g b) \<Longrightarrow> stores k g (if c then a else b)"
  by simp

lemmas stores_rules = stores_store stores_fields stores_dot stores_helpers stores_case_option
  stores_snd_case_option stores_snd_snd_case_option stores_snd_Pair stores_snd_snd_Pair stores_if

lemma AddChannel_stores: "stores (channelKey (ch_Name c)) g (AddChannel c g)"
  unfolding AddChannel_def Let_def case_prod_beta
  by (intro stores_rules) (simp_all add: dot_frames dot_effects)

lemma AddBroker_stores: "stores (brokerKey (br_Name b)) g (AddBroker b g)"
  unfolding AddBroker_def Let_def case_prod_beta
  by (intro stores_rules) (simp_all add: dot_frames dot_effects)

lemma AddSource_stores: "stores (gvkKey (src_GroupVersionKind s) (src_Name s)) g (AddSource s g)"
  unfolding AddSource_def Let_def case_prod_beta
  by (intro stores_rules) (simp_all add: dot_frames dot_effects)

lemma AddTrigger_stores: "stores (triggerKey (tr_Name t)) g (AddTrigger t g)"
  unfolding AddTrigger_def Let_def case_prod_beta
  by (intro stores_rules) (simp_all add: dot_frames dot_effects split: option.splits)

lemma storesR_Inr: "stores k g h \<Longrightarrow> storesR k g (Inr h)"
  by (simp add: storesR_def)

lemma storesR_case_option:
  "(x = None \<Longrightarrow> storesR k g a) \<Longrightarrow> (\<And>y. x = Some y \<Longrightarrow> storesR k g (b y)) \<Longrightarrow>
   storesR k g (case x of None \<Rightarrow> a | Some y \<Rightarrow> b y)"
  by (cases x) simp_all

lemma storesR_newEdge:
  "stores k g h \<Longrightarrow>
   storesR k g (case newEdge colors s d h of
                  Inl p \<Rightarrow> Inl p | Inr x \<Rightarrow> Inr (AddEdge (E x) (snd x)))"
  by (cases "newEdge colors s d h")
     (auto simp add: storesR_def newEdge_def Let_def stores_fields stores_dot split: if_splits)

lemma AddSubscription_storesR:
  "storesR (subscriptionKey (sn_Name s)) g (AddSubscription colors s g)"
  unfolding AddSubscription_def Let_def case_prod_beta
  by (intro storesR_Inr storesR_case_option storesR_newEdge stores_rules)
     (simp_all add: dot_frames dot_effects split: option.splits)

lemma stepBody_grows: "grows i h (snd (stepBody name sg num prev step h))"
  unfolding stepBody_def Let_def case_prod_beta
  by (intro grows_rules)

lemma stepBody_stores_own:
  "length (node_heap g) \<le> length (node_heap h) \<Longrightarrow>
   stores (sequenceStepKey name num) g (snd (stepBody name sg num prev step h))"
  unfolding stepBody_def Let_def case_prod_beta
  by (intro stores_rules) (simp_all add: dot_frames dot_effects)

lemma stepBody_stores:
  "length (node_heap g) \<le> length (node_heap h) \<Longrightarrow> stores k g h \<Longrightarrow>
   stores k g (snd (stepBody name sg num prev step h))"
  unfolding stepBody_def Let_def case_prod_beta
  by (intro stores_rules) (simp_all add: dot_frames dot_effects)

lemma stores_stepLoop:
  assumes "length (node_heap g) \<le> length (node_heap h)"
    and "stores k g h \<or> (\<exists>i < length steps. k = sequenceStepKey name (num + i))"
  shows "stores k g (snd (stepLoop name sg num prev steps h))"
  using assms
proof (induction steps arbitrary: h num prev)
  case Nil
  then show ?case by simp
next
  case (Cons step rest)
  let ?h = "snd (stepBody name sg num prev step h)"
  have "grows 0 h ?h"
    by (rule stepBody_grows)
  then have mono: "length (node_heap g) \<le> length (node_heap ?h)"
    using Cons.prems(1) by (simp add: grows_def)
  have "stores k g ?h \<or> (\<exists>i < length rest. k = sequenceStepKey name (num + 1 + i))"
  proof (cases "stores k g h")
    case True
    then show ?thesis using Cons.prems(1) by (simp add: stepBody_stores)
  next
    case False
    then obtain i where i: "i < length (step # rest)" "k = sequenceStepKey name (num + i)"
      using Cons.prems(2) by blast
    show ?thesis
    proof (cases i)
      case 0
      then show ?thesis using i Cons.prems(1) by (simp add: stepBody_stores_own)
    next
      case (Suc j)
      then show ?thesis using i by auto
    qed
  qed
  then show ?case
    unfolding stepLoop.simps Let_def case_prod_beta
    by (intro Cons.IH mono)
qed

lemma stores_stepLoop_kept:
  "stores k g h \<Longrightarrow> length (node_heap g) \<le> length (node_heap h) \<Longrightarrow>
   stores k g (snd (stepLoop name sg num prev steps h))"
  by (rule stores_stepLoop) simp_all

lemma stores_stepLoop_step:
  "i < length steps \<Longrightarrow> length (node_heap g) \<le> length (node_heap h) \<Longrightarrow>
   stores (sequenceStepKey name (num + i)) g (snd (stepLoop name sg num prev steps h))"
  by (rule stores_stepLoop) auto

lemma AddSequence_stores_key: "stores (sequenceKey (seq_Name s)) g (AddSequence s g)"
  unfolding AddSequence_def Let_def case_prod_beta
  by (intro stores_rules stores_stepLoop_kept) (simp_all add: dot_frames dot_effects)

lemma AddSequence_stores_step:
  "i < length (seq_Steps s) \<Longrightarrow> stores (sequenceStepKey (seq_Name s) i) g (AddSequence s g)"
  unfolding AddSequence_def Let_def case_prod_beta
  by (intro stores_rules stores_stepLoop_step [where num = 0, simplified])
     (simp_all add: dot_frames dot_effects)

lemma perform_stores:
  assumes "perform colors c g = Inr g'" and "k \<in> set (ownKeys c)"
  shows "stores k g g'"
proof (cases c)
  case (CallAddChannel x)
  then show ?thesis using assms AddChannel_stores [of x g] by auto
next
  case (CallAddSubscription x)
  then show ?thesis using assms AddSubscription_storesR [of x g colors]
    by (auto simp add: storesR_def)
next
  case (CallAddBroker x)
  then show ?thesis using assms AddBroker_stores [of x g] by auto
next
  case (CallAddSource x)
  then show ?thesis using assms AddSource_stores [of x g] by auto
next
  case (CallAddTrigger x)
  then show ?thesis using assms AddTrigger_stores [of x g] by auto
next
  case (CallAddKnService x)
  then show ?thesis using assms by simp
next
  case (CallAddSequence x)
  then show ?thesis using assms AddSequence_stores_key [of x g] AddSequence_stores_step [of _ x g]
    by auto
qed
section \<open>The loop over the steps of a sequence\<close>

lemma plain_edges:
  "plain (NewEdge s d)" "\<not> plain (Edge_Set k v e)"
  by (simp_all add: plain_def NewEdge_def Edge_Set_def)

lemma stepBody_fst: "fst (stepBody name sg num prev step h) = length (node_heap h)"
  by (simp add: stepBody_def Let_def case_prod_beta dot_effects)

lemma stepBody_edges:
  "\<exists>e. \<not> plain e \<and>
     doc_edges (snd (stepBody name sg num prev step h)) =
       doc_edges h @ [e, NewEdge (Some prev) (Some (length (node_heap h)))]"
  by (simp add: stepBody_def step_simps plain_edges)

lemma stepBody_created:
  "\<exists>rest. created (snd (stepBody name sg num prev step h)) =
     created h @ [sequenceStepKey name num] @ rest"
  by (simp add: stepBody_def step_simps created_dot created_Node_Set created_helpers)

lemma stepBody_has_own:
  "map_of (nodes (snd (stepBody name sg num prev step h))) (sequenceStepKey name num) =
     Some (length (node_heap h))"
  unfolding stepBody_def Let_def case_prod_beta
  apply (intro has_rules has_snd_Pair)
  apply (simp_all add: dot_frames dot_effects update_conv')
  done

lemma stepNodes_length: "length (stepNodes name sg num prev steps h) = length steps"
  by (induction steps arbitrary: h num prev) (simp_all add: Let_def case_prod_beta)

lemma stepLoop_fst:
  "fst (stepLoop name sg num prev steps h) = last (prev # stepNodes name sg num prev steps h)"
  by (induction steps arbitrary: h num prev) (simp_all add: Let_def case_prod_beta)

lemma stepLoop_edges:
  "\<exists>es. doc_edges (snd (stepLoop name sg num prev steps h)) = doc_edges h @ es \<and>
        filter plain es = chainEdges prev (stepNodes name sg num prev steps h)"
proof (induction steps arbitrary: h num prev)
  case Nil
  then show ?case by simp
next
  case (Cons step rest)
  let ?n = "fst (stepBody name sg num prev step h)"
  let ?h = "snd (stepBody name sg num prev step h)"
  obtain e where e: "\<not> plain e"
    "doc_edges ?h = doc_edges h @ [e, NewEdge (Some prev) (Some (length (node_heap h)))]"
    using stepBody_edges by blast
  obtain es where es: "doc_edges (snd (stepLoop name sg (num + 1) ?n rest ?h)) = doc_edges ?h @ es"
    "filter plain es = chainEdges ?n (stepNodes name sg (num + 1) ?n rest ?h)"
    using Cons.IH by blast
  show ?case
    using e es
    by (intro exI [of _ "[e, NewEdge (Some prev) (Some (length (node_heap h)))] @ es"])
       (simp add: Let_def case_prod_beta plain_edges stepBody_fst)
qed

lemma stepBody_heap:
  "length (node_heap h) < length (node_heap (snd (stepBody name sg num prev step h)))"
proof -
  obtain rest where "created (snd (stepBody name sg num prev step h)) =
     created h @ [sequenceStepKey name num] @ rest"
    using stepBody_created by blast
  then have "length (created (snd (stepBody name sg num prev step h))) > length (created h)"
    by simp
  then show ?thesis by (simp add: created_dot)
qed

lemma stepLoop_heap:
  "length (node_heap h) \<le> length (node_heap (snd (stepLoop name sg num prev steps h)))"
  using grows_stepLoop [OF grows_refl, of 0 h name sg num prev steps] by (simp add: grows_def)

lemma stepNodes_fresh:
  "sorted_wrt (<) (stepNodes name sg num prev steps h) \<and>
   (\<forall>n \<in> set (stepNodes name sg num prev steps h).
      length (node_heap h) \<le> n \<and> n < length (node_heap (snd (stepLoop name sg num prev steps h))))"
proof (induction steps arbitrary: h num prev)
  case Nil
  then show ?case by simp
next
  case (Cons step rest)
  let ?n = "fst (stepBody name sg num prev step h)"
  let ?h = "snd (stepBody name sg num prev step h)"
  have n: "?n = length (node_heap h)"
    by (rule stepBody_fst)
  have lt: "length (node_heap h) < length (node_heap ?h)"
    by (rule stepBody_heap)
  have le: "length (node_heap ?h) \<le> length (node_heap (snd (stepLoop name sg (num + 1) ?n rest ?h)))"
    by (rule stepLoop_heap)
  from Cons.IH [of "num + 1" ?n ?h] lt le show ?case
    by (auto simp add: Let_def case_prod_beta n)
qed

lemma stepLoop_registered:
  "i < length steps \<Longrightarrow>
   map_of (nodes (snd (stepLoop name sg num prev steps h))) (sequenceStepKey name (num + i)) =
     Some (stepNodes name sg num prev steps h ! i)"
proof (induction steps arbitrary: h num prev i)
  case Nil
  then show ?case by simp
next
  case (Cons step rest)
  let ?n = "fst (stepBody name sg num prev step h)"
  let ?h = "snd (stepBody name sg num prev step h)"
  show ?case
  proof (cases i)
    case 0
    let ?K = "sequenceStepKey name ` {num + 1 ..< num + 1 + length rest}"
    have "keeps ?K ?h (snd (stepLoop name sg (num + 1) ?n rest ?h))"
      by (intro keeps_stepLoop keeps_refl) auto
    moreover have "map_of (nodes ?h) (sequenceStepKey name num) = Some (length (node_heap h))"
      by (rule stepBody_has_own)
    moreover have "sequenceStepKey name num \<notin> ?K"
      by (auto dest: sequenceStepKey_inj)
    ultimately have "map_of (nodes (snd (stepLoop name sg (num + 1) ?n rest ?h)))
        (sequenceStepKey name num) = Some (length (node_heap h))"
      by (rule keepsD)
    then show ?thesis
      using 0 by (simp add: Let_def case_prod_beta stepBody_fst)
  next
    case (Suc j)
    then have "j < length rest"
      using Cons.prems by simp
    from Cons.IH [OF this, of "num + 1" ?n ?h] show ?thesis
      using Suc by (simp add: Let_def case_prod_beta)
  qed
qed

lemma stepLoop_created: "\<exists>xs. created (snd (stepLoop name sg num prev steps h)) = created h @ xs"
proof (induction steps arbitrary: h num prev)
  case Nil
  then show ?case by simp
next
  case (Cons step rest)
  let ?n = "fst (stepBody name sg num prev step h)"
  let ?h = "snd (stepBody name sg num prev step h)"
  obtain r where "created ?h = created h @ [sequenceStepKey name num] @ r"
    using stepBody_created by blast
  moreover obtain xs where "created (snd (stepLoop name sg (num + 1) ?n rest ?h)) = created ?h @ xs"
    using Cons.IH by blast
  ultimately show ?case
    by (simp add: Let_def case_prod_beta)
qed

lemma stepLoop_names:
  "i < length steps \<Longrightarrow>
   created (snd (stepLoop name sg num prev steps h)) ! (stepNodes name sg num prev steps h ! i) =
     sequenceStepKey name (num + i)"
proof (induction steps arbitrary: h num prev i)
  case Nil
  then show ?case by simp
next
  case (Cons step rest)
  let ?n = "fst (stepBody name sg num prev step h)"
  let ?h = "snd (stepBody name sg num prev step h)"
  show ?case
  proof (cases i)
    case 0
    obtain r where r: "created ?h = created h @ [sequenceStepKey name num] @ r"
      using stepBody_created by blast
    obtain xs where "created (snd (stepLoop name sg (num + 1) ?n rest ?h)) = created ?h @ xs"
      using stepLoop_created by blast
    then have "created (snd (stepLoop name sg (num + 1) ?n rest ?h)) ! length (created h) =
        sequenceStepKey name num"
      by (simp add: r nth_append)
    then show ?thesis
      using 0 by (simp add: Let_def case_prod_beta stepBody_fst created_dot)
  next
    case (Suc j)
    then have "j < length rest"
      using Cons.prems by simp
    from Cons.IH [OF this, of "num + 1" ?n ?h] show ?thesis
      using Suc by (simp add: Let_def case_prod_beta)
  qed
qed

lemma AddSequence_loop:
  obtains sg g7 where
    "doc_edges g7 = doc_edges g"
    "length (node_heap g7) = length (node_heap g) + 1"
    "map_of (nodes g7) (sequenceKey (seq_Name s)) = Some (length (node_heap g))"
    "nodes (AddSequence s g) =
       nodes (snd (stepLoop (seq_Name s) sg 0 (length (node_heap g)) (seq_Steps s) g7))"
    "created (AddSequence s g) =
       created (snd (stepLoop (seq_Name s) sg 0 (length (node_heap g)) (seq_Steps s) g7)) @
       (case seq_Reply s of None \<Rightarrow> [] | Some r \<Rightarrow> [''Reply '' @ TrimSuffix (seq_URL s) ''/''])"
    "doc_edges (AddSequence s g) =
       doc_edges (snd (stepLoop (seq_Name s) sg 0 (length (node_heap g)) (seq_Steps s) g7)) @
       (case seq_Reply s of
          None \<Rightarrow> []
        | Some reply \<Rightarrow>
            NewEdge (Some (fst (stepLoop (seq_Name s) sg 0 (length (node_heap g)) (seq_Steps s) g7)))
              (Some (length (node_heap (AddSequence s g)) - 1)) #
            (case map_of (nodes (AddSequence s g))
                    (gvkKey (or_GroupVersionKind reply) (or_Name reply)) of
               None \<Rightarrow> []
             | Some rn \<Rightarrow> [NewEdge (Some (length (node_heap (AddSequence s g)) - 1)) (Some rn)]))"
proof -
  let ?k = "sequenceKey (seq_Name s)"
  let ?dns = "TrimSuffix (seq_URL s) ''/''"
  let ?sg = "fst (NewSubgraph (''cluster_'' @ fmtD (length (subgraphs g))) g)"
  let ?g1 = "snd (NewSubgraph (''cluster_'' @ fmtD (length (subgraphs g))) g)"
  let ?g2 = "SubGraph_Set ?sg ''label'' (''Sequence '' @ seq_Name s @ ''\<newline>'' @ ?dns) ?g1"
  let ?g3 = "?g2\<lparr>dnsToKey := AList.update ?dns ?k (dnsToKey ?g2)\<rparr>"
  let ?sn = "fst (NewNode (''Sequence '' @ ?dns) ?g3)"
  let ?g4 = "snd (NewNode (''Sequence '' @ ?dns) ?g3)"
  let ?g5 = "Node_Set ?sn ''label'' ''Start'' ?g4"
  let ?g6 = "?g5\<lparr>nodes := AList.update ?k ?sn (nodes ?g5)\<rparr>"
  let ?g7 = "SubGraph_AddNode ?sg ?sn ?g6"
  have sn: "?sn = length (node_heap g)"
    by (simp add: dot_frames dot_effects)
  show thesis
  proof (rule that [of ?g7 ?sg])
    show "doc_edges ?g7 = doc_edges g"
      by (simp add: dot_frames dot_effects)
    show "length (node_heap ?g7) = length (node_heap g) + 1"
      by (simp add: dot_frames dot_effects)
    show "map_of (nodes ?g7) ?k = Some (length (node_heap g))"
      by (simp add: dot_frames dot_effects update_conv')
    show "nodes (AddSequence s g) =
       nodes (snd (stepLoop (seq_Name s) ?sg 0 (length (node_heap g)) (seq_Steps s) ?g7))"
      by (simp add: AddSequence_def step_simps split: option.splits)
    show "created (AddSequence s g) =
       created (snd (stepLoop (seq_Name s) ?sg 0 (length (node_heap g)) (seq_Steps s) ?g7)) @
       (case seq_Reply s of None \<Rightarrow> [] | Some r \<Rightarrow> [''Reply '' @ TrimSuffix (seq_URL s) ''/''])"
      by (simp add: AddSequence_def step_simps created_dot created_Node_Set split: option.splits)
    show "doc_edges (AddSequence s g) =
       doc_edges (snd (stepLoop (seq_Name s) ?sg 0 (length (node_heap g)) (seq_Steps s) ?g7)) @
       (case seq_Reply s of
          None \<Rightarrow> []
        | Some reply \<Rightarrow>
            NewEdge (Some (fst (stepLoop (seq_Name s) ?sg 0 (length (node_heap g)) (seq_Steps s) ?g7)))
              (Some (length (node_heap (AddSequence s g)) - 1)) #
            (case map_of (nodes (AddSequence s g))
                    (gvkKey (or_GroupVersionKind reply) (or_Name reply)) of
               None \<Rightarrow> []
             | Some rn \<Rightarrow> [NewEdge (Some (length (node_heap (AddSequence s g)) - 1)) (Some rn)]))"
      by (simp add: AddSequence_def step_simps split: option.splits)
  qed
qed

section \<open>The example resources are ASCII\<close>

lemma ascii_examples:
  "asciiString ''c''" "asciiString ''b''"
  "asciiCall (CallAddBroker ex_broker)"
  "asciiSource ex_source"
  "asciiSubscription (ex_subscription\<lparr>sn_Subscriber := None\<rparr>)"
  "asciiCall (CallAddChannel ex_channel)"
  "asciiTrigger (ex_trigger ''t1'')" "asciiTrigger (ex_trigger ''t2'')"
  by code_simp+

section \<open>Reply resolution on a channel that has no node (C1)\<close>

lemma AddSubscription_no_reply:
  assumes r: "sn_Reply s = Some r" and c: "rep_Channel r = Some c"
    and miss: "map_of (nodes g) (channelKey (or_Name c)) = None"
    and other: "fst (subscriberKeyLabel (sn_Subscriber s)) \<noteq> channelKey (or_Name c)"
  shows "case AddSubscription colors s g of
           Inl p \<Rightarrow> False
         | Inr g' \<Rightarrow>
             (\<exists>sub. doc_edges g' = doc_edges g @
                 [Edge_Set ''dir'' ''both'' (NewEdge (Some (length (node_heap g))) (Some sub))]) \<and>
             edgeCount g' = edgeCount g"
  using assms
  by (auto simp add: AddSubscription_def Let_def case_prod_beta helper_simps dot_frames dot_effects
      update_conv' keys_distinct split: option.splits)

text \<open>
  C1, as stated, fails: the subscriber is resolved before the reply, and a subscriber that is
  a reference to the reply channel itself gets a node under the channel key. On an empty
  graph, the subscription \<open>ex_subscription\<close> has no node under the key of channel \<open>c\<close>
  when \<open>AddSubscription\<close> is called, and yet a forward reply edge is added.
\<close>

theorem AddSubscription_reply_counterexample:
  "map_of (nodes (New ''default'')) (channelKey ''c'') = None \<and>
   map_sum id doc_edges (AddSubscription [''red''] ex_subscription (New ''default'')) =
     Inr [\<lparr>e_src = Some 0, e_dst = Some 1, e_attrs = [(''dir'', ''both'')]\<rparr>,
          \<lparr>e_src = Some 0, e_dst = Some 1,
             e_attrs = [(''color'', ''red''), (''dir'', ''forward'')]\<rparr>]"
  by code_simp

text \<open>
  C1, amended: when the reply strategy names a channel whose key has no node at the time
  \<open>AddSubscription\<close> is called, and the subscriber of the subscription is not resolved under
  that same channel key, then reply resolution returns no node and its only effect is one
  more object, named \<open>Unknown Channel <name>\<close>, in the store (the document and the indexes
  stay as they are); \<open>AddSubscription\<close> returns normally, with any palette, and the only
  edge it adds is the subscriber edge. The strings of the subscription that enter keys are
  ASCII, so that the keys compared are those the program computes.
\<close>

theorem AddSubscription_unresolved_reply:
  assumes r: "sn_Reply s = Some r" and c: "rep_Channel r = Some c"
    and miss: "map_of (nodes g) (channelKey (or_Name c)) = None"
    and other: "fst (subscriberKeyLabel (sn_Subscriber s)) \<noteq> channelKey (or_Name c)"
    and ascii: "asciiSubscription s"
  shows "(\<forall>h. map_of (nodes h) (channelKey (or_Name c)) = None \<longrightarrow>
            getOrCreateReply (sn_Reply s) h =
              (None, h\<lparr>node_heap := node_heap h @
                          [\<lparr>n_name = ''Unknown Channel '' @ or_Name c, n_attrs = []\<rparr>]\<rparr>)) \<and>
         (\<exists>g' sub. AddSubscription colors s g = Inr g' \<and>
            doc_edges g' = doc_edges g @
              [Edge_Set ''dir'' ''both'' (NewEdge (Some (length (node_heap g))) (Some sub))] \<and>
            edgeCount g' = edgeCount g)"
proof
  show "\<forall>h. map_of (nodes h) (channelKey (or_Name c)) = None \<longrightarrow>
            getOrCreateReply (sn_Reply s) h =
              (None, h\<lparr>node_heap := node_heap h @
                          [\<lparr>n_name = ''Unknown Channel '' @ or_Name c, n_attrs = []\<rparr>]\<rparr>)"
    using r c by (simp add: getOrCreateReply_miss)
  show "\<exists>g' sub. AddSubscription colors s g = Inr g' \<and>
            doc_edges g' = doc_edges g @
              [Edge_Set ''dir'' ''both'' (NewEdge (Some (length (node_heap g))) (Some sub))] \<and>
            edgeCount g' = edgeCount g"
    using AddSubscription_no_reply [OF r c miss other, of colors]
    by (cases "AddSubscription colors s g") auto
qed

theorem AddSubscription_unresolved_reply_witness:
  "getOrCreateReply (sn_Reply (ex_subscription\<lparr>sn_Subscriber := None\<rparr>)) (New ''default'') =
     (None, (New ''default'')\<lparr>node_heap := [\<lparr>n_name = ''Unknown Channel c'', n_attrs = []\<rparr>]\<rparr>) \<and>
   (\<exists>g' sub. AddSubscription [] (ex_subscription\<lparr>sn_Subscriber := None\<rparr>) (New ''default'') = Inr g' \<and>
      doc_edges g' = [Edge_Set ''dir'' ''both'' (NewEdge (Some 0) (Some sub))] \<and>
      edgeCount g' = 0)"
  using AddSubscription_unresolved_reply [of "ex_subscription\<lparr>sn_Subscriber := None\<rparr>"
      "\<lparr>rep_Channel = Some (ex_channelRef ''c'')\<rparr>" "ex_channelRef ''c''" "New ''default''" "[]"]
    ascii_examples
  by (simp add: ex_subscription_def ex_channelRef_def New_def subscriberKey_nil
      keys_not_question [symmetric])

section \<open>A service without containers (C2)\<close>

text \<open>
  C2 does not hold of the code: \<open>AddKnService\<close> indexes \<open>Containers[0]\<close> with no check of
  the length, so every service with an empty container list makes it panic with an index
  out of range, whatever the graph.
\<close>

theorem AddKnService_no_containers_panics:
  "AddKnService (s\<lparr>svc_Containers := []\<rparr>) g = Inl IndexOutOfRange"
  by (simp add: AddKnService_def Let_def case_prod_beta)

section \<open>An unresolved sink of a service (C3)\<close>

text \<open>
  C3 does not hold of the code: on a miss \<open>getOrCreateSink\<close> constructs the placeholder
  \<open>UnknownSink http://x\<close> and adds it to the document (node 1 below), but returns the node
  index entry of the empty key, which is nil; the edge that \<open>AddKnService\<close> adds from the
  service node (node 0) has no destination.
\<close>

theorem AddKnService_unknown_sink_edge:
  "map_sum id (\<lambda>g. (created g, doc_nodes g, doc_edges g))
     (AddKnService ex_service (New ''default'')) =
   Inr ([''s\<newline>Kind: Service\<newline>serving.knative.dev/v1beta1'', ''UnknownSink http://x''],
        [0, 1],
        [\<lparr>e_src = Some 0, e_dst = None, e_attrs = []\<rparr>])"
  by code_simp

section \<open>One node per key (C4)\<close>

text \<open>
  C4, as stated, fails: \<open>AddChannel\<close> stores a new node under the channel key without
  looking the key up. Adding the same channel twice constructs two nodes named
  \<open>Channel c\<close>, and the second replaces the first under the key.
\<close>

theorem AddChannel_twice_counterexample:
  "map_of (nodes (AddChannel ex_channel (New ''default''))) (channelKey ''c'') = Some 0 \<and>
   map_of (nodes (AddChannel ex_channel (AddChannel ex_channel (New ''default''))))
     (channelKey ''c'') = Some 1 \<and>
   created (AddChannel ex_channel (AddChannel ex_channel (New ''default''))) =
     [''Channel c'', ''Channel c'']"
  by (simp add: AddChannel_fields update_conv' ex_channel_def created_New New_fields)

text \<open>
  C4, amended. Throughout any sequence of add operations that returns, the node registered
  under a key \<open>k\<close> stays the node registered under \<open>k\<close>, as long as no operation of the
  sequence adds a resource whose own key \<open>k\<close> is (\<open>ownKeys\<close>: the key of a channel,
  subscription, broker, source, trigger or sequence, and the keys of the steps of a
  sequence). Every lookup then finds that node and constructs none for \<open>k\<close>: subscriber
  resolution and reply resolution answer with it and change nothing; a trigger on the
  broker of key \<open>k\<close> constructs its own node and at most the node of its subscriber, and
  leaves \<open>k\<close> as it is; \<open>AddKnService\<close> for the service of key \<open>k\<close> leaves the node index
  as it is, constructs only the \<open>UnknownSink\<close> placeholders of the addresses that the
  address index does not have, and starts each of its edges at that node. But every add
  operation that returns leaves, under each of its own keys, a node that it has
  constructed itself, whatever was registered there before. (The strings that enter the
  keys compared are ASCII.)
\<close>

theorem node_kept_unless_own_key:
  assumes run: "build colors cs g = Inr g'" and reg: "map_of (nodes g) k = Some n"
    and later: "\<forall>c \<in> set cs. asciiCall c \<and> k \<notin> set (ownKeys c)"
  shows "map_of (nodes g') k = Some n \<and>
     (\<forall>s. asciiSubscriber s \<and> fst (subscriberKeyLabel s) = k \<longrightarrow>
        getOrCreateSubscriber s g' = (Some n, g')) \<and>
     (\<forall>r c. asciiRef c \<and> rep_Channel r = Some c \<and> channelKey (or_Name c) = k \<longrightarrow>
        getOrCreateReply (Some r) g' = (Some n, g')) \<and>
     (\<forall>t. asciiTrigger t \<and> brokerKey (tr_Broker t) = k \<longrightarrow>
        map_of (nodes (AddTrigger t g')) k = Some n \<and>
        (\<exists>rest. length rest \<le> 1 \<and>
           created (AddTrigger t g') = created g' @ [''Trigger '' @ tr_Name t] @ rest)) \<and>
     (\<forall>s h. asciiCall (CallAddKnService s) \<and> servingKey (svc_Kind s) (svc_Name s) = k \<and>
        AddKnService s g' = Inr h \<longrightarrow>
        nodes h = nodes g' \<and>
        created h =
          created g' @
            map (\<lambda>u. ''UnknownSink '' @ u)
              (filter (\<lambda>u. map_of (dnsToKey g') u = None)
                 (sinkAddresses (c_Env (hd (svc_Containers s))))) \<and>
        map e_src (drop (length (doc_edges g')) (doc_edges h)) =
          map (\<lambda>u. Some n) (sinkAddresses (c_Env (hd (svc_Containers s))))) \<and>
     (\<forall>c h h' k'. asciiCall c \<and> perform colors c h = Inr h' \<and> k' \<in> set (ownKeys c) \<longrightarrow>
        (\<exists>m. map_of (nodes h') k' = Some m \<and> length (node_heap h) \<le> m \<and>
             m < length (node_heap h')))"
proof (intro conjI allI impI)
  from later have keys: "\<forall>c \<in> set cs. k \<notin> set (ownKeys c)"
    by blast
  show kept: "map_of (nodes g') k = Some n"
    using run reg keys by (rule build_keeps)
  show "getOrCreateSubscriber s g' = (Some n, g')"
    if "asciiSubscriber s \<and> fst (subscriberKeyLabel s) = k" for s
    using that kept by (simp add: getOrCreateSubscriber_hit)
  show "getOrCreateReply (Some r) g' = (Some n, g')"
    if "asciiRef c \<and> rep_Channel r = Some c \<and> channelKey (or_Name c) = k" for r c
    using that kept by (simp add: getOrCreateReply_hit)
  show "map_of (nodes (AddTrigger t g')) k = Some n"
    if "asciiTrigger t \<and> brokerKey (tr_Broker t) = k" for t
    using AddTrigger_keeps [of t g'] kept that by (auto dest!: keepsD simp add: keys_distinct)
  show "\<exists>rest. length rest \<le> 1 \<and>
           created (AddTrigger t g') = created g' @ [''Trigger '' @ tr_Name t] @ rest"
    if "asciiTrigger t \<and> brokerKey (tr_Broker t) = k" for t
    using AddTrigger_created [of t g'] kept that by auto
  show "\<exists>m. map_of (nodes h') k' = Some m \<and> length (node_heap h) \<le> m \<and>
             m < length (node_heap h')"
    if "asciiCall c \<and> perform colors c h = Inr h' \<and> k' \<in> set (ownKeys c)" for c h h' k'
  proof -
    from that have "stores k' h h'"
      by (intro perform_stores [of colors c]) simp_all
    then show ?thesis
      by (cases "map_of (nodes h') k'") (simp_all add: stores_def)
  qed
  fix s h
  assume a: "asciiCall (CallAddKnService s) \<and> servingKey (svc_Kind s) (svc_Name s) = k \<and>
        AddKnService s g' = Inr h"
  then have "map_of (nodes g') (servingKey (svc_Kind s) (svc_Name s)) = Some n"
    using kept by simp
  from AddKnService_hit [OF this] a
  have "(case svc_Containers s of [] \<Rightarrow> Inl IndexOutOfRange
         | c # cs \<Rightarrow> Inr (envLoop n (c_Env c) g')) = Inr h"
    by simp
  then have h: "h = envLoop n (c_Env (hd (svc_Containers s))) g'"
    by (cases "svc_Containers s") auto
  show "nodes h = nodes g'"
    by (simp add: h envLoop_indexes)
  show "created h =
          created g' @
            map (\<lambda>u. ''UnknownSink '' @ u)
              (filter (\<lambda>u. map_of (dnsToKey g') u = None)
                 (sinkAddresses (c_Env (hd (svc_Containers s)))))"
    by (simp add: h envLoop_created)
  show "map e_src (drop (length (doc_edges g')) (doc_edges h)) =
          map (\<lambda>u. Some n) (sinkAddresses (c_Env (hd (svc_Containers s))))"
    by (simp add: h envLoop_edges NewEdge_def comp_def)
qed

theorem node_kept_unless_own_key_witness:
  "build [] [CallAddBroker ex_broker] (AddChannel ex_channel (New ''default'')) =
     Inr (AddBroker ex_broker (AddChannel ex_channel (New ''default''))) \<and>
   map_of (nodes (AddChannel ex_channel (New ''default''))) (channelKey ''c'') = Some 0 \<and>
   map_of (nodes (AddBroker ex_broker (AddChannel ex_channel (New ''default''))))
     (channelKey ''c'') = Some 0 \<and>
   getOrCreateSubscriber (Some \<lparr>sub_Ref = Some (ex_channelRef ''c''), sub_URI = None\<rparr>)
       (AddBroker ex_broker (AddChannel ex_channel (New ''default''))) =
     (Some 0, AddBroker ex_broker (AddChannel ex_channel (New ''default''))) \<and>
   getOrCreateReply (Some \<lparr>rep_Channel = Some (ex_channelRef ''c'')\<rparr>)
       (AddBroker ex_broker (AddChannel ex_channel (New ''default''))) =
     (Some 0, AddBroker ex_broker (AddChannel ex_channel (New ''default''))) \<and>
   (\<exists>m. map_of (nodes (AddChannel ex_channel (AddChannel ex_channel (New ''default''))))
          (channelKey ''c'') = Some m \<and> 1 \<le> m)"
proof -
  let ?g = "AddChannel ex_channel (New ''default'')"
  let ?g' = "AddBroker ex_broker ?g"
  have run: "build [] [CallAddBroker ex_broker] ?g = Inr ?g'"
    by simp
  have reg: "map_of (nodes ?g) (channelKey ''c'') = Some 0"
    by (simp add: AddChannel_fields update_conv' New_fields ex_channel_def)
  have later: "\<forall>c \<in> set [CallAddBroker ex_broker].
      asciiCall c \<and> channelKey ''c'' \<notin> set (ownKeys c)"
    by (simp add: ascii_examples ex_broker_def channelKey_nf brokerKey_nf)
  have sub: "asciiSubscriber (Some \<lparr>sub_Ref = Some (ex_channelRef ''c''), sub_URI = None\<rparr>) \<and>
      fst (subscriberKeyLabel (Some \<lparr>sub_Ref = Some (ex_channelRef ''c''), sub_URI = None\<rparr>)) =
        channelKey ''c''"
    by code_simp
  have rep: "asciiRef (ex_channelRef ''c'') \<and>
      rep_Channel \<lparr>rep_Channel = Some (ex_channelRef ''c'')\<rparr> = Some (ex_channelRef ''c'') \<and>
      channelKey (or_Name (ex_channelRef ''c'')) = channelKey ''c''"
    by code_simp
  have own: "asciiCall (CallAddChannel ex_channel) \<and>
      perform [] (CallAddChannel ex_channel) ?g = Inr (AddChannel ex_channel ?g) \<and>
      channelKey ''c'' \<in> set (ownKeys (CallAddChannel ex_channel))"
    by (simp add: ascii_examples ex_channel_def)
  have len: "length (node_heap ?g) = 1"
    by (simp add: AddChannel_fields New_fields)
  from node_kept_unless_own_key [OF run reg later] sub rep own len show ?thesis
    using run reg by (metis (no_types, lifting))
qed

section \<open>The shared node of absent subscribers (C5)\<close>



lemma question_not_own: "''?'' \<notin> set (ownKeys c)"
  by (cases c) (auto simp add: keys_not_question [symmetric])

lemma AddSubscription_nil_subscriber:
  assumes "sn_Subscriber s = None" and "map_of (nodes g) ''?'' = Some n"
  shows "case AddSubscription colors s g of
           Inl p \<Rightarrow> True
         | Inr g' \<Rightarrow> take (length (doc_edges g) + 1) (doc_edges g') =
             doc_edges g @ [Edge_Set ''dir'' ''both'' (NewEdge (Some (length (node_heap g))) (Some n))]"
  using assms
  by (cases "map_of (subgraphs g) (gvkKey (or_GroupVersionKind (sn_Channel s)) (or_Name (sn_Channel s)))")
     (auto simp add: AddSubscription_def step_simps subscriberKey_nil keys_not_question
        keys_not_question [symmetric] newEdge_def
      split: option.splits sum.splits if_splits)

lemma AddTrigger_nil_subscriber:
  assumes "tr_Subscriber t = None" and "map_of (nodes g) ''?'' = Some n"
  shows "\<exists>tn. doc_edges (AddTrigger t g) =
             doc_edges g @ [Edge_Set ''dir'' ''both'' (NewEdge (Some tn) (Some n))]"
  using assms
  by (cases "map_of (nodes g) (brokerKey (tr_Broker t))";
      cases "map_of (subgraphs g) (brokerKey (tr_Broker t))";
      cases "tr_Filter t")
     (auto simp add: AddTrigger_def step_simps subscriberKey_nil keys_not_question [symmetric]
        keys_not_question split: option.splits)

text \<open>
  C5: once a resolution of an absent (nil) subscriber has answered with a node, that node
  stays under the key \<open>?\<close> for the rest of the build, whatever is added later, and every
  later resolution of an absent subscriber answers with it and changes nothing: called
  directly; from \<open>AddSubscription\<close> and from \<open>AddTrigger\<close> with a nil subscriber (the subscriber
  edge they add ends in that node); and for a sequence step, whose subscriber is never nil
  but may have neither a URI nor a reference.
\<close>

theorem nil_subscriber_shared:
  assumes res: "getOrCreateSubscriber None g = (r, g1)" and run: "build colors cs g1 = Inr g2"
  shows "\<exists>n. r = Some n \<and> map_of (nodes g1) ''?'' = Some n \<and>
     getOrCreateSubscriber None g2 = (Some n, g2) \<and>
     (\<forall>s g3. sn_Subscriber s = None \<and> AddSubscription colors s g2 = Inr g3 \<longrightarrow>
        take (length (doc_edges g2) + 1) (doc_edges g3) =
          doc_edges g2 @
            [Edge_Set ''dir'' ''both'' (NewEdge (Some (length (node_heap g2))) (Some n))]) \<and>
     (\<forall>t. tr_Subscriber t = None \<longrightarrow>
        (\<exists>tn. doc_edges (AddTrigger t g2) =
           doc_edges g2 @ [Edge_Set ''dir'' ''both'' (NewEdge (Some tn) (Some n))])) \<and>
     (\<forall>step. sub_URI step = None \<and> sub_Ref step = None \<longrightarrow>
        getOrCreateSubscriber (Some step) g2 = (Some n, g2))"
proof -
  let ?n = "case map_of (nodes g) ''?'' of Some n \<Rightarrow> n | None \<Rightarrow> length (node_heap g)"
  have r: "r = Some ?n"
    using res fst_getOrCreateSubscriber [of None g] by (simp add: subscriberKey_nil)
  have "g1 = snd (getOrCreateSubscriber None g)"
    using res by simp
  then have g1: "map_of (nodes g1) ''?'' = Some ?n"
    by (simp add: snd_getOrCreateSubscriber subscriberKey_nil update_conv' split: option.splits)
  have g2: "map_of (nodes g2) ''?'' = Some ?n"
    using run g1 by (rule build_keeps) (simp add: question_not_own)
  have direct: "getOrCreateSubscriber None g2 = (Some ?n, g2)"
    using g2 by (simp add: getOrCreateSubscriber_hit subscriberKey_nil)
  have subscription: "take (length (doc_edges g2) + 1) (doc_edges g3) =
          doc_edges g2 @
            [Edge_Set ''dir'' ''both'' (NewEdge (Some (length (node_heap g2))) (Some ?n))]"
    if "sn_Subscriber s = None" and "AddSubscription colors s g2 = Inr g3" for s g3
    using AddSubscription_nil_subscriber [OF that(1) g2, of colors] that(2) by simp
  have trigger: "\<exists>tn. doc_edges (AddTrigger t g2) =
           doc_edges g2 @ [Edge_Set ''dir'' ''both'' (NewEdge (Some tn) (Some ?n))]"
    if "tr_Subscriber t = None" for t
    using that g2 by (rule AddTrigger_nil_subscriber)
  have step: "getOrCreateSubscriber (Some step) g2 = (Some ?n, g2)"
    if "sub_URI step = None" and "sub_Ref step = None" for step
    using g2 that by (simp add: getOrCreateSubscriber_hit subscriberKeyLabel_def)
  show ?thesis
    using r g1 direct subscription trigger step by blast
qed

theorem nil_subscriber_shared_witness:
  "getOrCreateSubscriber None (New ''default'') =
     (Some 0, snd (getOrCreateSubscriber None (New ''default''))) \<and>
   build [] [CallAddChannel ex_channel] (snd (getOrCreateSubscriber None (New ''default''))) =
     Inr (AddChannel ex_channel (snd (getOrCreateSubscriber None (New ''default'')))) \<and>
   getOrCreateSubscriber None
     (AddChannel ex_channel (snd (getOrCreateSubscriber None (New ''default'')))) =
     (Some 0, AddChannel ex_channel (snd (getOrCreateSubscriber None (New ''default''))))"
proof -
  have a: "getOrCreateSubscriber None (New ''default'') =
     (Some 0, snd (getOrCreateSubscriber None (New ''default'')))"
    by (simp add: prod_eq_iff fst_getOrCreateSubscriber subscriberKey_nil New_fields)
  have b: "build [] [CallAddChannel ex_channel] (snd (getOrCreateSubscriber None (New ''default''))) =
     Inr (AddChannel ex_channel (snd (getOrCreateSubscriber None (New ''default''))))"
    by simp
  from nil_subscriber_shared [OF a b] show ?thesis
    using a b by auto
qed

section \<open>Where a subscription node is placed (C9)\<close>





lemma AddBroker_edges: "doc_edges (AddBroker b g) = doc_edges g"
  by (simp add: AddBroker_def step_simps)

lemma AddBroker_cluster:
  "length (node_heap (AddBroker b g)) = length (node_heap g) + 1"
  "doc_nodes (AddBroker b g) = doc_nodes g"
  "i < length (sg_heap g) \<Longrightarrow> sg_nodes (sg_heap (AddBroker b g) ! i) = sg_nodes (sg_heap g ! i)"
  by (simp_all add: AddBroker_def step_simps SubGraph_AddNode_def SubGraph_Set_def NewSubgraph_def
      nth_append)



section \<open>A source whose sink is the address of a channel (C7)\<close>

lemma ex_addresses:
  "TrimSuffix (ch_URL ex_channel) ''/'' = ''http://c.ns.svc.cluster.local''"
  "sinkDNS ex_source = ''http://c.ns.svc.cluster.local''"
  "sinkDNS ex_colliding_source = ''http://c.ns.svc.cluster.local''"
  "gvkKey (src_GroupVersionKind ex_colliding_source) (src_Name ex_colliding_source) = channelKey ''c''"
  "ch_Name ex_channel = ''c''"
  by (simp_all add: ex_channel_def ex_source_def ex_colliding_source_def sinkDNS_def TrimSuffix_def
      HasSuffix_def gvkKey_channel)

text \<open>
  C7, as stated, fails for a source that is registered under the key of the channel
  itself: \<open>AddSource\<close> stores the source node under that key before it resolves the sink,
  so the address of the channel leads to the source node (node 1) and the edge is a loop
  on it; the node created for the channel is node 0.
\<close>

theorem AddSource_own_key_counterexample:
  "src_SinkURI ex_colliding_source = Some ''http://c.ns.svc.cluster.local'' \<and>
   ch_URL ex_channel = ''http://c.ns.svc.cluster.local/'' \<and>
   map_of (nodes (AddChannel ex_channel (New ''default''))) (channelKey ''c'') = Some 0 \<and>
   map (\<lambda>e. (e_src e, e_dst e))
     (doc_edges (AddSource ex_colliding_source (AddChannel ex_channel (New ''default'')))) =
     [(Some 1, Some 1)]"
proof -
  have "doc_edges (AddSource ex_colliding_source (AddChannel ex_channel (New ''default''))) =
     doc_edges (AddChannel ex_channel (New ''default'')) @
       [case map_of (subgraphs (AddChannel ex_channel (New ''default'')))
               (gvkKey (src_GroupVersionKind ex_colliding_source) (src_Name ex_colliding_source)) of
          None \<Rightarrow> NewEdge (Some (length (node_heap (AddChannel ex_channel (New ''default'')))))
                    (Some (length (node_heap (AddChannel ex_channel (New ''default'')))))
        | Some sg \<Rightarrow> Edge_Set ''lhead'' (sg_name (sg_heap (AddChannel ex_channel (New ''default'')) ! sg))
                      (NewEdge (Some (length (node_heap (AddChannel ex_channel (New ''default'')))))
                         (Some (length (node_heap (AddChannel ex_channel (New ''default''))))))]"
    by (rule AddSource_own_sink_edges)
       (simp_all add: ex_addresses AddChannel_fields update_conv')
  then show ?thesis
    by (simp add: ex_addresses AddChannel_fields update_conv' New_fields NewEdge_def Edge_Set_def
        ex_colliding_source_def ex_channel_def split: option.splits)
qed

text \<open>
  C7, amended: \<open>strings.TrimSuffix\<close> strips exactly one trailing slash, on the address of
  a channel and on the sink of a source alike. Take a channel \<open>c\<close>, any add operations after
  \<open>AddChannel c\<close> that neither store that address again nor add a resource under the key
  of \<open>c\<close>, and then a source whose sink URI, so stripped, equals the stripped address of
  \<open>c\<close> and is not empty, and whose own key is not the key of \<open>c\<close> (the names that enter
  these keys being ASCII). Then the address index leads from the sink to the channel key
  and from there to the node created for the channel; \<open>AddSource\<close> adds exactly one edge,
  from the new source node to that node, which is an older node, and constructs no
  placeholder.
\<close>

theorem source_sink_resolves_to_channel:
  assumes run: "build colors cs (AddChannel c g) = Inr h"
    and later: "\<forall>x \<in> set cs. asciiCall x \<and> channelKey (ch_Name c) \<notin> set (ownKeys x) \<and>
                  TrimSuffix (ch_URL c) ''/'' \<notin> set (ownAddresses x)"
    and sink: "src_SinkURI s = Some u"
    and eq: "TrimSuffix u ''/'' = TrimSuffix (ch_URL c) ''/''"
    and nonempty: "TrimSuffix u ''/'' \<noteq> []"
    and other: "gvkKey (src_GroupVersionKind s) (src_Name s) \<noteq> channelKey (ch_Name c)"
    and ascii: "asciiString (ch_Name c)" "asciiSource s"
  shows "(\<forall>a. TrimSuffix (a @ ''/'') ''/'' = a) \<and>
         (\<forall>a. \<not> HasSuffix a ''/'' \<longrightarrow> TrimSuffix a ''/'' = a) \<and>
         map_of (dnsToKey h) (sinkDNS s) = Some (channelKey (ch_Name c)) \<and>
         map_of (nodes h) (channelKey (ch_Name c)) = Some (length (node_heap g)) \<and>
         length (node_heap g) < length (node_heap h) \<and>
         (\<exists>e. doc_edges (AddSource s h) = doc_edges h @ [e] \<and>
              e_src e = Some (length (node_heap h)) \<and>
              e_dst e = Some (length (node_heap g))) \<and>
         created (AddSource s h) =
           created h @
             [''Source '' @ src_Name s @ ''\<newline>Kind: '' @ src_Kind s @ ''\<newline>'' @ src_APIVersion s]"
proof -
  have dns: "sinkDNS s = TrimSuffix (ch_URL c) ''/''"
    using sink eq by (simp add: sinkDNS_def)
  have ne: "sinkDNS s \<noteq> []"
    using sink nonempty by (simp add: sinkDNS_def)
  from later have keys: "\<forall>x \<in> set cs. channelKey (ch_Name c) \<notin> set (ownKeys x)"
    and addrs: "\<forall>x \<in> set cs. TrimSuffix (ch_URL c) ''/'' \<notin> set (ownAddresses x)"
    by blast+
  have "map_of (dnsToKey h) (TrimSuffix (ch_URL c) ''/'') =
      map_of (dnsToKey (AddChannel c g)) (TrimSuffix (ch_URL c) ''/'')"
    using run addrs by (rule build_address_index)
  then have idx: "map_of (dnsToKey h) (sinkDNS s) = Some (channelKey (ch_Name c))"
    by (simp add: dns AddChannel_fields update_conv')
  have "map_of (nodes (AddChannel c g)) (channelKey (ch_Name c)) = Some (length (node_heap g))"
    by (simp add: AddChannel_fields update_conv')
  with run have node: "map_of (nodes h) (channelKey (ch_Name c)) = Some (length (node_heap g))"
    using keys by (rule build_keeps)
  have "grows 0 (AddChannel c g) h"
    using run by (rule build_grows)
  then have older: "length (node_heap g) < length (node_heap h)"
    by (simp add: grows_def AddChannel_fields)
  have "doc_edges (AddSource s h) =
     doc_edges h @
       [case map_of (subgraphs h) (channelKey (ch_Name c)) of
          None \<Rightarrow> NewEdge (Some (length (node_heap h))) (Some (length (node_heap g)))
        | Some sg \<Rightarrow> Edge_Set ''lhead'' (sg_name (sg_heap h ! sg))
                      (NewEdge (Some (length (node_heap h))) (Some (length (node_heap g))))]"
    using ne idx node other [symmetric] by (rule AddSource_edges)
  then have edge: "\<exists>e. doc_edges (AddSource s h) = doc_edges h @ [e] \<and>
              e_src e = Some (length (node_heap h)) \<and>
              e_dst e = Some (length (node_heap g))"
    by (simp add: NewEdge_def Edge_Set_def split: option.splits)
  have "created (AddSource s h) =
           created h @
             [''Source '' @ src_Name s @ ''\<newline>Kind: '' @ src_Kind s @ ''\<newline>'' @ src_APIVersion s]"
    using idx node by (simp add: AddSource_created)
  then show ?thesis
    using idx node edge older by (simp add: TrimSuffix_slash TrimSuffix_no_slash)
qed

theorem source_sink_resolves_to_channel_witness:
  "map_of (dnsToKey (AddBroker ex_broker (AddChannel ex_channel (New ''default''))))
     ''http://c.ns.svc.cluster.local'' = Some (channelKey ''c'') \<and>
   map_of (nodes (AddBroker ex_broker (AddChannel ex_channel (New ''default'')))) (channelKey ''c'') =
     Some 0 \<and>
   (\<exists>e. doc_edges (AddSource ex_source (AddBroker ex_broker (AddChannel ex_channel (New ''default'')))) =
          [e] \<and>
        e_src e = Some 2 \<and> e_dst e = Some 0)"
proof -
  have run: "build [] [CallAddBroker ex_broker] (AddChannel ex_channel (New ''default'')) =
      Inr (AddBroker ex_broker (AddChannel ex_channel (New ''default'')))"
    by simp
  have later: "\<forall>x \<in> set [CallAddBroker ex_broker].
      asciiCall x \<and> channelKey (ch_Name ex_channel) \<notin> set (ownKeys x) \<and>
      TrimSuffix (ch_URL ex_channel) ''/'' \<notin> set (ownAddresses x)"
    by (simp add: ascii_examples ex_channel_def ex_broker_def channelKey_nf brokerKey_nf
        TrimSuffix_def HasSuffix_def)
  have a: "src_SinkURI ex_source = Some ''http://c.ns.svc.cluster.local''"
    by (simp add: ex_source_def)
  have b: "TrimSuffix ''http://c.ns.svc.cluster.local'' ''/'' = TrimSuffix (ch_URL ex_channel) ''/''"
    by (simp add: ex_channel_def TrimSuffix_def HasSuffix_def)
  have c: "TrimSuffix ''http://c.ns.svc.cluster.local'' ''/'' \<noteq> []"
    by (simp add: TrimSuffix_def HasSuffix_def)
  have d: "gvkKey (src_GroupVersionKind ex_source) (src_Name ex_source) \<noteq> channelKey (ch_Name ex_channel)"
    by (simp add: ex_source_def ex_channel_def gvkKey_nf channelKey_nf ToLower_Cons toLowerByte_def)
  have e: "asciiString (ch_Name ex_channel)"
    by (simp add: ex_addresses ascii_examples)
  have f: "doc_edges (AddBroker ex_broker (AddChannel ex_channel (New ''default''))) = []"
    "length (node_heap (AddBroker ex_broker (AddChannel ex_channel (New ''default'')))) = 2"
    by (simp_all add: AddBroker_edges AddBroker_cluster AddChannel_fields New_fields)
  from source_sink_resolves_to_channel [OF run later a b c d e ascii_examples(4)] show ?thesis
    by (simp add: ex_addresses New_fields f)
qed

section \<open>The address index only holds keys that have a node (C10)\<close>

text \<open>
  C10: in every state that a build reaches from the empty graph, after each of its add
  operations, every key stored as a value of the address index has a node in the node
  index. So when \<open>AddSource\<close> finds the sink of a source in the address index, the node
  lookup that follows succeeds: the only node \<open>AddSource\<close> constructs is the node of the
  source, and the second \<open>UnknownSink\<close> branch is never taken.
\<close>

theorem address_index_resolves:
  assumes "build colors cs (New ns) = Inr g"
  shows "addressesResolve g \<and>
         (\<forall>d k. map_of (dnsToKey g) d = Some k \<longrightarrow> map_of (nodes g) k \<noteq> None) \<and>
         (\<forall>source. map_of (dnsToKey g) (sinkDNS source) \<noteq> None \<longrightarrow>
            created (AddSource source g) =
              created g @
                [''Source '' @ src_Name source @ ''\<newline>Kind: '' @ src_Kind source @
                 ''\<newline>'' @ src_APIVersion source])"
proof -
  have inv: "addressesResolve g"
    using assms addressesResolve_New by (rule build_addressesResolve)
  then have res: "map_of (nodes g) k \<noteq> None" if "map_of (dnsToKey g) d = Some k" for d k
    using that by (rule addressesResolveD)
  have "created (AddSource source g) =
              created g @
                [''Source '' @ src_Name source @ ''\<newline>Kind: '' @ src_Kind source @
                 ''\<newline>'' @ src_APIVersion source]"
    if "map_of (dnsToKey g) (sinkDNS source) \<noteq> None" for source
  proof -
    from that obtain bk where bk: "map_of (dnsToKey g) (sinkDNS source) = Some bk"
      by auto
    from res [OF bk] show ?thesis
      by (simp add: AddSource_created bk)
  qed
  then show ?thesis using inv res by blast
qed

theorem address_index_resolves_witness:
  "build [] [CallAddChannel ex_channel] (New ''default'') =
     Inr (AddChannel ex_channel (New ''default'')) \<and>
   addressesResolve (AddChannel ex_channel (New ''default'')) \<and>
   map_of (dnsToKey (AddChannel ex_channel (New ''default''))) (sinkDNS ex_source) =
     Some (channelKey ''c'') \<and>
   map_of (nodes (AddChannel ex_channel (New ''default''))) (channelKey ''c'') = Some 0 \<and>
   created (AddSource ex_source (AddChannel ex_channel (New ''default''))) =
     [''Channel c'', ''Source ping\<newline>Kind: CronJobSource\<newline>sources.eventing.knative.dev/v1alpha1'']"
proof -
  have b: "build [] [CallAddChannel ex_channel] (New ''default'') =
     Inr (AddChannel ex_channel (New ''default''))"
    by simp
  have d: "map_of (dnsToKey (AddChannel ex_channel (New ''default''))) (sinkDNS ex_source) =
     Some (channelKey ''c'')"
    by (simp add: AddChannel_fields update_conv' ex_addresses)
  from address_index_resolves [OF b] d
  have "addressesResolve (AddChannel ex_channel (New ''default'')) \<and>
    created (AddSource ex_source (AddChannel ex_channel (New ''default''))) =
      created (AddChannel ex_channel (New ''default'')) @
        [''Source '' @ src_Name ex_source @ ''\<newline>Kind: '' @ src_Kind ex_source @
         ''\<newline>'' @ src_APIVersion ex_source]"
    by simp
  then show ?thesis
    using b d
    by (simp add: AddChannel_fields update_conv' ex_addresses New_fields created_New ex_source_def)
qed

section \<open>The placeholder of a missing broker (C6)\<close>

text \<open>
  C6: when the broker key has no node, \<open>AddTrigger\<close> constructs the node
  \<open>UnknownBroker <name>\<close>, then the trigger node (and at most the node of the subscriber),
  and registers the placeholder under the broker key. The placeholder stays under that key
  as long as the broker stays missing, that is, through any operations that add no
  resource of that key; a later trigger on the same broker then finds it: the broker key
  still leads to the same node, and the trigger constructs its own node (and at most the
  node of its subscriber), but no second placeholder. (The names that enter the keys
  compared are ASCII.)
\<close>

theorem missing_broker_placeholder:
  assumes miss: "map_of (nodes g) (brokerKey b) = None"
    and t1: "tr_Broker t1 = b" and t2: "tr_Broker t2 = b"
    and run: "build colors cs (AddTrigger t1 g) = Inr h"
    and stays: "\<forall>c \<in> set cs. asciiCall c \<and> brokerKey b \<notin> set (ownKeys c)"
    and ascii: "asciiTrigger t1" "asciiTrigger t2"
  shows "\<exists>rest1 rest2.
     map_of (nodes (AddTrigger t1 g)) (brokerKey b) = Some (length (node_heap g)) \<and>
     created (AddTrigger t1 g) =
       created g @ [''UnknownBroker '' @ b, ''Trigger '' @ tr_Name t1] @ rest1 \<and>
     length rest1 \<le> 1 \<and>
     map_of (nodes h) (brokerKey b) = Some (length (node_heap g)) \<and>
     map_of (nodes (AddTrigger t2 h)) (brokerKey b) = Some (length (node_heap g)) \<and>
     created (AddTrigger t2 h) = created h @ [''Trigger '' @ tr_Name t2] @ rest2 \<and>
     length rest2 \<le> 1"
proof -
  have first: "map_of (nodes (AddTrigger t1 g)) (brokerKey b) = Some (length (node_heap g))"
    using miss AddTrigger_missing_broker [of g t1] by (simp add: t1)
  from AddTrigger_created [of t1 g] miss obtain rest1 where
    r1: "length rest1 \<le> 1"
    "created (AddTrigger t1 g) =
       created g @ [''UnknownBroker '' @ b, ''Trigger '' @ tr_Name t1] @ rest1"
    by (auto simp add: t1)
  from stays have keys: "\<forall>c \<in> set cs. brokerKey b \<notin> set (ownKeys c)"
    by blast
  have later: "map_of (nodes h) (brokerKey b) = Some (length (node_heap g))"
    using run first keys by (rule build_keeps)
  have "map_of (nodes (AddTrigger t2 h)) (brokerKey b) = Some (length (node_heap g))"
    using AddTrigger_keeps [of t2 h] later by (auto dest!: keepsD simp add: keys_distinct)
  moreover from AddTrigger_created [of t2 h] later obtain rest2 where
    "length rest2 \<le> 1"
    "created (AddTrigger t2 h) = created h @ [''Trigger '' @ tr_Name t2] @ rest2"
    by (auto simp add: t2)
  ultimately show ?thesis using first r1 later by blast
qed

theorem missing_broker_placeholder_witness:
  "map_of (nodes (New ''default'')) (brokerKey ''b'') = None \<and>
   build [] [CallAddChannel ex_channel] (AddTrigger (ex_trigger ''t1'') (New ''default'')) =
     Inr (AddChannel ex_channel (AddTrigger (ex_trigger ''t1'') (New ''default''))) \<and>
   map_of (nodes (AddTrigger (ex_trigger ''t1'') (New ''default''))) (brokerKey ''b'') = Some 0 \<and>
   take 2 (created (AddTrigger (ex_trigger ''t1'') (New ''default''))) =
     [''UnknownBroker b'', ''Trigger t1''] \<and>
   map_of (nodes (AddTrigger (ex_trigger ''t2'')
       (AddChannel ex_channel (AddTrigger (ex_trigger ''t1'') (New ''default'')))))
     (brokerKey ''b'') = Some 0"
proof -
  have a: "map_of (nodes (New ''default'')) (brokerKey ''b'') = None"
    by (simp add: New_fields)
  have b: "build [] [CallAddChannel ex_channel] (AddTrigger (ex_trigger ''t1'') (New ''default'')) =
     Inr (AddChannel ex_channel (AddTrigger (ex_trigger ''t1'') (New ''default'')))"
    by simp
  have c: "\<forall>c \<in> set [CallAddChannel ex_channel].
      asciiCall c \<and> brokerKey ''b'' \<notin> set (ownKeys c)"
    by (simp add: ascii_examples ex_channel_def channelKey_nf brokerKey_nf)
  have d: "tr_Broker (ex_trigger ''t1'') = ''b''" "tr_Broker (ex_trigger ''t2'') = ''b''"
    by (simp_all add: ex_trigger_def)
  from missing_broker_placeholder [OF a d b c ascii_examples(7,8)] show ?thesis
    using a b by (auto simp add: New_fields created_New ex_trigger_def)
qed

section \<open>The chain of a sequence (C8)\<close>

text \<open>
  C8: \<open>AddSequence\<close> constructs the start node and then, for the steps in their order, one
  node each (\<open>ids\<close>, increasing, so all different and all new); the node of step \<open>i\<close> is
  named by, and registered under, the key of the sequence name and the index \<open>i\<close>. The
  plain edges that \<open>AddSequence\<close> adds are, in this order, the chain from the start node to
  the first step node and from each step node to the next, followed only by the edges of
  the reply, if the sequence has one: from the last step node (the start node when there
  is no step) to the reply node, and from the reply node to the node of the reply
  reference when it has one. (The other edges that \<open>AddSequence\<close> adds are the edges
  between a step and its subscriber; they carry the attribute \<open>dir\<close>. The strings that
  enter keys are ASCII.)
\<close>

theorem AddSequence_chain:
  assumes ascii: "asciiSequence s"
  shows "\<exists>ids. length ids = length (seq_Steps s) \<and>
     sorted_wrt (<) ids \<and>
     map_of (nodes (AddSequence s g)) (sequenceKey (seq_Name s)) = Some (length (node_heap g)) \<and>
     (\<forall>i < length ids.
        length (node_heap g) < ids ! i \<and> ids ! i < length (node_heap (AddSequence s g)) \<and>
        created (AddSequence s g) ! (ids ! i) = sequenceStepKey (seq_Name s) i \<and>
        map_of (nodes (AddSequence s g)) (sequenceStepKey (seq_Name s) i) = Some (ids ! i)) \<and>
     take (length (doc_edges g)) (doc_edges (AddSequence s g)) = doc_edges g \<and>
     filter plain (drop (length (doc_edges g)) (doc_edges (AddSequence s g))) =
       chainEdges (length (node_heap g)) ids @
       (case seq_Reply s of
          None \<Rightarrow> []
        | Some reply \<Rightarrow>
            NewEdge (Some (last (length (node_heap g) # ids)))
              (Some (length (node_heap (AddSequence s g)) - 1)) #
            (case map_of (nodes (AddSequence s g))
                    (gvkKey (or_GroupVersionKind reply) (or_Name reply)) of
               None \<Rightarrow> []
             | Some rn \<Rightarrow> [NewEdge (Some (length (node_heap (AddSequence s g)) - 1)) (Some rn)]))"
proof -
  obtain sg g7 where
    e7: "doc_edges g7 = doc_edges g"
    and h7: "length (node_heap g7) = length (node_heap g) + 1"
    and k7: "map_of (nodes g7) (sequenceKey (seq_Name s)) = Some (length (node_heap g))"
    and nodes: "nodes (AddSequence s g) =
       nodes (snd (stepLoop (seq_Name s) sg 0 (length (node_heap g)) (seq_Steps s) g7))"
    and created: "created (AddSequence s g) =
       created (snd (stepLoop (seq_Name s) sg 0 (length (node_heap g)) (seq_Steps s) g7)) @
       (case seq_Reply s of None \<Rightarrow> [] | Some r \<Rightarrow> [''Reply '' @ TrimSuffix (seq_URL s) ''/''])"
    and edges: "doc_edges (AddSequence s g) =
       doc_edges (snd (stepLoop (seq_Name s) sg 0 (length (node_heap g)) (seq_Steps s) g7)) @
       (case seq_Reply s of
          None \<Rightarrow> []
        | Some reply \<Rightarrow>
            NewEdge (Some (fst (stepLoop (seq_Name s) sg 0 (length (node_heap g)) (seq_Steps s) g7)))
              (Some (length (node_heap (AddSequence s g)) - 1)) #
            (case map_of (nodes (AddSequence s g))
                    (gvkKey (or_GroupVersionKind reply) (or_Name reply)) of
               None \<Rightarrow> []
             | Some rn \<Rightarrow> [NewEdge (Some (length (node_heap (AddSequence s g)) - 1)) (Some rn)]))"
    by (rule AddSequence_loop)
  let ?L = "stepLoop (seq_Name s) sg 0 (length (node_heap g)) (seq_Steps s) g7"
  let ?ids = "stepNodes (seq_Name s) sg 0 (length (node_heap g)) (seq_Steps s) g7"
  have len: "length ?ids = length (seq_Steps s)"
    by (rule stepNodes_length)
  have fresh: "sorted_wrt (<) ?ids"
    "\<forall>n \<in> set ?ids. length (node_heap g7) \<le> n \<and> n < length (node_heap (snd ?L))"
    using stepNodes_fresh [of "seq_Name s" sg 0 "length (node_heap g)" "seq_Steps s" g7] by simp_all
  have start: "map_of (nodes (AddSequence s g)) (sequenceKey (seq_Name s)) = Some (length (node_heap g))"
  proof -
    let ?K = "sequenceStepKey (seq_Name s) ` {0 ..< length (seq_Steps s)}"
    have "keeps ?K g7 (snd ?L)"
      by (intro keeps_stepLoop keeps_refl) auto
    moreover have "sequenceKey (seq_Name s) \<notin> ?K"
      by (auto simp add: keys_distinct)
    ultimately have "map_of (nodes (snd ?L)) (sequenceKey (seq_Name s)) = Some (length (node_heap g))"
      using k7 by (auto dest: keepsD)
    then show ?thesis by (simp add: nodes)
  qed
  have steps: "length (node_heap g) < ?ids ! i \<and> ?ids ! i < length (node_heap (AddSequence s g)) \<and>
        created (AddSequence s g) ! (?ids ! i) = sequenceStepKey (seq_Name s) i \<and>
        map_of (nodes (AddSequence s g)) (sequenceStepKey (seq_Name s) i) = Some (?ids ! i)"
    if "i < length ?ids" for i
  proof -
    from that have i: "i < length (seq_Steps s)"
      by (simp add: len)
    from that fresh(2) have b: "length (node_heap g7) \<le> ?ids ! i"
      "?ids ! i < length (node_heap (snd ?L))"
      by simp_all
    then have c: "?ids ! i < length (created (snd ?L))"
      by (simp add: created_dot)
    have "length (created (snd ?L)) \<le> length (created (AddSequence s g))"
      by (simp add: created)
    then have d: "?ids ! i < length (node_heap (AddSequence s g))"
      using c by (simp add: created_dot)
    have "created (AddSequence s g) ! (?ids ! i) = created (snd ?L) ! (?ids ! i)"
      using c by (simp add: created nth_append)
    then have e: "created (AddSequence s g) ! (?ids ! i) = sequenceStepKey (seq_Name s) i"
      using stepLoop_names [OF i, of "seq_Name s" sg 0 "length (node_heap g)" g7] by simp
    have f: "map_of (nodes (AddSequence s g)) (sequenceStepKey (seq_Name s) i) = Some (?ids ! i)"
      using stepLoop_registered [OF i, of "seq_Name s" sg 0 "length (node_heap g)" g7]
      by (simp add: nodes)
    from b d e f show ?thesis by (simp add: h7)
  qed
  obtain es where es: "doc_edges (snd ?L) = doc_edges g7 @ es"
    "filter plain es = chainEdges (length (node_heap g)) ?ids"
    using stepLoop_edges by blast
  have pre: "take (length (doc_edges g)) (doc_edges (AddSequence s g)) = doc_edges g"
    by (simp add: edges es e7)
  have chain: "filter plain (drop (length (doc_edges g)) (doc_edges (AddSequence s g))) =
       chainEdges (length (node_heap g)) ?ids @
       (case seq_Reply s of
          None \<Rightarrow> []
        | Some reply \<Rightarrow>
            NewEdge (Some (last (length (node_heap g) # ?ids)))
              (Some (length (node_heap (AddSequence s g)) - 1)) #
            (case map_of (nodes (AddSequence s g))
                    (gvkKey (or_GroupVersionKind reply) (or_Name reply)) of
               None \<Rightarrow> []
             | Some rn \<Rightarrow> [NewEdge (Some (length (node_heap (AddSequence s g)) - 1)) (Some rn)]))"
    by (simp add: edges es e7 stepLoop_fst plain_edges split: option.splits)
  show ?thesis
    using len fresh(1) start steps pre chain by (intro exI [of _ ?ids]) blast
qed

theorem AddSequence_chain_witness:
  "\<exists>a b. a < b \<and>
     filter plain (doc_edges (AddSequence ex_sequence (New ''default''))) =
       [NewEdge (Some 0) (Some a), NewEdge (Some a) (Some b)] \<and>
     map_of (nodes (AddSequence ex_sequence (New ''default''))) (sequenceStepKey ''q'' 0) = Some a \<and>
     map_of (nodes (AddSequence ex_sequence (New ''default''))) (sequenceStepKey ''q'' 1) = Some b"
proof -
  have a: "asciiSequence ex_sequence"
    by code_simp
  have s: "seq_Steps ex_sequence = [\<lparr>sub_Ref = None, sub_URI = Some ''http://a/''\<rparr>,
                   \<lparr>sub_Ref = None, sub_URI = Some ''http://b/''\<rparr>]"
    "seq_Reply ex_sequence = None" "seq_Name ex_sequence = ''q''"
    by (simp_all add: ex_sequence_def)
  from AddSequence_chain [OF a, of "New ''default''"] obtain ids where
    len: "length ids = length (seq_Steps ex_sequence)"
    and sorted: "sorted_wrt (<) ids"
    and steps: "\<forall>i < length ids.
        length (node_heap (New ''default'')) < ids ! i \<and>
        ids ! i < length (node_heap (AddSequence ex_sequence (New ''default''))) \<and>
        created (AddSequence ex_sequence (New ''default'')) ! (ids ! i) =
          sequenceStepKey (seq_Name ex_sequence) i \<and>
        map_of (nodes (AddSequence ex_sequence (New ''default'')))
          (sequenceStepKey (seq_Name ex_sequence) i) = Some (ids ! i)"
    and chain: "filter plain (drop (length (doc_edges (New ''default'')))
          (doc_edges (AddSequence ex_sequence (New ''default'')))) =
       chainEdges (length (node_heap (New ''default''))) ids @
       (case seq_Reply ex_sequence of
          None \<Rightarrow> []
        | Some reply \<Rightarrow>
            NewEdge (Some (last (length (node_heap (New ''default'')) # ids)))
              (Some (length (node_heap (AddSequence ex_sequence (New ''default''))) - 1)) #
            (case map_of (nodes (AddSequence ex_sequence (New ''default'')))
                    (gvkKey (or_GroupVersionKind reply) (or_Name reply)) of
               None \<Rightarrow> []
             | Some rn \<Rightarrow>
                 [NewEdge (Some (length (node_heap (AddSequence ex_sequence (New ''default''))) - 1))
                    (Some rn)]))"
    by blast
  from len have "length ids = 2"
    by (simp add: s)
  then obtain a b where ab: "ids = [a, b]"
    by (auto simp add: length_Suc_conv eval_nat_numeral)
  from steps have
    "map_of (nodes (AddSequence ex_sequence (New ''default''))) (sequenceStepKey ''q'' 0) = Some a"
    "map_of (nodes (AddSequence ex_sequence (New ''default''))) (sequenceStepKey ''q'' 1) = Some b"
    by (auto simp add: ab s)
  moreover from chain have "filter plain (doc_edges (AddSequence ex_sequence (New ''default''))) =
       [NewEdge (Some 0) (Some a), NewEdge (Some a) (Some b)]"
    by (simp add: ab s New_fields)
  moreover from sorted have "a < b"
    by (simp add: ab)
  ultimately show ?thesis
    by blast
qed

end
